theory Spec2Isabelle
  imports Main "HOL-Library.Sublist"
begin

section \<open>JavaScript strings\<close>

text \<open>
  A JavaScript string is modelled as a \<^typ>\<open>string\<close>: the list of its code units, each
  below 256. The functions of this section are the \<open>String.prototype\<close> methods that the
  scanner calls, with the results JavaScript gives.
\<close>

definition tab :: char where
  "tab = CHR 0x09"

definition newline :: char where
  "newline = CHR 0x0A"

text \<open>The white space that \<open>trim\<close> removes, among the code units below 256:
  TAB, LF, VT, FF, CR, SPACE and NBSP.\<close>

definition is_space :: "char \<Rightarrow> bool" where
  "is_space c = (c \<in> set [CHR 0x09, CHR 0x0A, CHR 0x0B, CHR 0x0C, CHR 0x0D, CHR 0x20, CHR 0xA0])"

definition trim :: "string \<Rightarrow> string" where
  "trim s = rev (dropWhile is_space (rev (dropWhile is_space s)))"

text \<open>\<open>s.includes(p)\<close>: \<open>p\<close> occurs in \<open>s\<close> as a contiguous substring.\<close>

primrec includes_str :: "string \<Rightarrow> string \<Rightarrow> bool" where
  "includes_str [] p = (p = [])"
| "includes_str (c # cs) p = (prefix p (c # cs) \<or> includes_str cs p)"

definition startsWith :: "string \<Rightarrow> string \<Rightarrow> bool" where
  "startsWith s p = prefix p s"

definition endsWith :: "string \<Rightarrow> string \<Rightarrow> bool" where
  "endsWith s p = suffix p s"

text \<open>
  \<open>s.split(sep)\<close> for a non-empty separator: the pieces between the occurrences of
  \<open>sep\<close>, found from left to right without overlap. The second argument collects the
  piece being read, reversed. The result is never empty: a string without the separator
  is its own single piece.
\<close>

function split_from :: "string \<Rightarrow> string \<Rightarrow> string \<Rightarrow> string list" where
  "split_from sep cur [] = [rev cur]"
| "split_from sep cur (x # xs) =
     (if sep \<noteq> [] \<and> prefix sep (x # xs)
      then rev cur # split_from sep [] (drop (length sep) (x # xs))
      else split_from sep (x # cur) xs)"
  by pat_completeness auto
termination
  by (relation "measure (\<lambda>(sep, cur, s). length s)") auto

definition split :: "string \<Rightarrow> string \<Rightarrow> string list" where
  "split s sep = split_from sep [] s"

text \<open>\<open>s.replace(pat, rep)\<close> with a string pattern: only the first occurrence is replaced.\<close>

primrec replace :: "string \<Rightarrow> string \<Rightarrow> string \<Rightarrow> string" where
  "replace [] pat rep = (if pat = [] then rep else [])"
| "replace (c # cs) pat rep =
     (if prefix pat (c # cs) then rep @ drop (length pat) (c # cs)
      else c # replace cs pat rep)"

section \<open>Version specifiers (lib/analyzer.js)\<close>

text \<open>The character class \<open>[\<^verbatim>\<open>^\<close>~>=<]\<close> of the regular expression in \<open>extractVersion\<close>.\<close>

definition is_operator :: "char \<Rightarrow> bool" where
  "is_operator c = (c \<in> set [CHR 0x5E, CHR ''~'', CHR ''>'', CHR ''='', CHR ''<''])"

text \<open>
  \<^verbatim>\<open>versionSpec.replace(/^[\^~>=<]+/, '').split(' ')[0]\<close>: the anchored pattern removes the
  longest run of operator characters at the start (nothing when there is none), and
  element 0 of the split exists because a split is never empty.
\<close>

definition extractVersion :: "string \<Rightarrow> string" where
  "extractVersion versionSpec = hd (split (dropWhile is_operator versionSpec) '' '')"

text \<open>The reading of "first whitespace-delimited token" that splits at any white space,
  and the one that also skips white space in front of the token.\<close>

definition first_ws_piece :: "string \<Rightarrow> string" where
  "first_ws_piece s = takeWhile (\<lambda>c. \<not> is_space c) s"

definition first_ws_token :: "string \<Rightarrow> string" where
  "first_ws_token s = takeWhile (\<lambda>c. \<not> is_space c) (dropWhile is_space s)"

section \<open>The file system seen by the scanner (lib/scanner.js)\<close>

text \<open>
  What \<open>fs.readdirSync(dir, { withFileTypes: true })\<close> shows of a tree. \<open>Dir\<close> is a
  directory with its entries in the order they are read; \<open>Denied\<close> is a directory on
  which \<open>readdirSync\<close> throws; \<open>File\<close> is any entry whose \<open>isDirectory()\<close> is false
  (a symbolic link is one: its \<open>Dirent\<close> is not a directory); \<open>Dangling\<close> is a symbolic
  link whose target is missing, the one entry on which \<open>fs.existsSync\<close> is false.
\<close>

datatype fsnode = File | Dangling | Dir "(string \<times> fsnode) list" | Denied

fun isDirectory :: "fsnode \<Rightarrow> bool" where
  "isDirectory (Dir entries) = True"
| "isDirectory Denied = True"
| "isDirectory File = False"
| "isDirectory Dangling = False"

fun existsSync :: "fsnode \<Rightarrow> bool" where
  "existsSync Dangling = False"
| "existsSync t = True"

text \<open>
  \<open>path.join\<close> of Node, in its POSIX form. \<open>normalize\<close> splits the path at \<open>/\<close>,
  drops the empty segments and the segments \<open>.\<close>, and lets a segment \<open>..\<close> remove the
  segment before it; where there is none to remove, \<open>..\<close> is kept in a relative path and
  dropped in an absolute one. The leading \<open>/\<close> of an absolute path and a trailing \<open>/\<close>
  are kept, and a path that comes out empty is \<open>/\<close>, \<open>./\<close> or \<open>.\<close>. \<open>path_join\<close> joins
  its non-empty arguments with \<open>/\<close> and normalises the result.
\<close>

fun normalize_segments :: "bool \<Rightarrow> string list \<Rightarrow> string list \<Rightarrow> string list" where
  "normalize_segments allowAboveRoot res [] = rev res"
| "normalize_segments allowAboveRoot res (s # ss) =
     (if s = [] \<or> s = ''.'' then normalize_segments allowAboveRoot res ss
      else if s = ''..'' then
        (case res of
           [] \<Rightarrow> normalize_segments allowAboveRoot (if allowAboveRoot then [''..''] else []) ss
         | r # rs \<Rightarrow>
             if r = ''..''
             then normalize_segments allowAboveRoot
                    (if allowAboveRoot then ''..'' # r # rs else r # rs) ss
             else normalize_segments allowAboveRoot rs ss)
      else normalize_segments allowAboveRoot (s # res) ss)"

fun join_slash :: "string list \<Rightarrow> string" where
  "join_slash [] = []"
| "join_slash [s] = s"
| "join_slash (s # t # ss) = s @ CHR ''/'' # join_slash (t # ss)"

definition normalize :: "string \<Rightarrow> string" where
  "normalize p =
     (if p = [] then ''.''
      else
        (let isAbsolute = (hd p = CHR ''/'');
             trailingSeparator = (last p = CHR ''/'');
             q = join_slash (normalize_segments (\<not> isAbsolute) [] (split p ''/''))
         in if q = [] then (if isAbsolute then ''/'' else if trailingSeparator then ''./'' else ''.'')
            else (if isAbsolute then ''/'' else []) @ q @ (if trailingSeparator then ''/'' else [])))"

definition path_join :: "string \<Rightarrow> string \<Rightarrow> string" where
  "path_join d n =
     (if d = [] \<and> n = [] then ''.''
      else if d = [] then normalize n
      else if n = [] then normalize d
      else normalize (d @ CHR ''/'' # n))"

text \<open>lib/config.js\<close>

definition MALICIOUS_ARTIFACTS :: "string list" where
  "MALICIOUS_ARTIFACTS =
     [''.github/workflows/discussion.yaml'',
      ''.github/workflows/discussion.yml'',
      ''cloud.json'',
      ''contents.json'',
      ''environment.json'',
      ''truffleSecrets.json'',
      ''actionsSecrets.json'',
      ''setup_bun.js'',
      ''bun_environment.js'']"

definition is_digit :: "char \<Rightarrow> bool" where
  "is_digit c = (c \<in> set ''0123456789'')"

text \<open>
  \<open>SUSPICIOUS_WORKFLOW_PATTERN.test(name)\<close> for \<^verbatim>\<open>/formatter_\d+\.ya?ml$/\<close>: somewhere in
  the name stands \<open>formatter_\<close>, then one or more digits, then \<open>.yml\<close> or \<open>.yaml\<close> up
  to the end of the name. The digits are followed by a dot, so the run of digits is the
  longest one.
\<close>

definition workflow_match_here :: "string \<Rightarrow> bool" where
  "workflow_match_here s =
     (prefix ''formatter_'' s \<and>
      (let r = drop (length ''formatter_'') s;
           ext = dropWhile is_digit r
       in takeWhile is_digit r \<noteq> [] \<and> (ext = ''.yml'' \<or> ext = ''.yaml'')))"

primrec SUSPICIOUS_WORKFLOW_PATTERN_test :: "string \<Rightarrow> bool" where
  "SUSPICIOUS_WORKFLOW_PATTERN_test [] = workflow_match_here []"
| "SUSPICIOUS_WORKFLOW_PATTERN_test (c # cs) =
     (workflow_match_here (c # cs) \<or> SUSPICIOUS_WORKFLOW_PATTERN_test cs)"

record found_item =
  item_type :: string
  item_path :: string

record found_artifact =
  artifact :: string
  artifact_path :: string

text \<open>
  \<open>findPackageFiles\<close>: the inner \<open>scan\<close> pushes on one shared array, so the result of a
  directory is the results of its entries in order. A failed \<open>readdirSync\<close> is caught
  and gives nothing (the optional \<open>onError\<close> callback is not part of the result).
\<close>

fun scan_packages :: "string \<Rightarrow> fsnode \<Rightarrow> found_item list" where
  "scan_packages currentDir (Dir entries) =
     concat (map (\<lambda>entry.
       let fullPath = path_join currentDir (fst entry) in
       if fst entry = ''node_modules''
       then (if existsSync (snd entry)
             then [\<lparr>item_type = ''node_modules'', item_path = fullPath\<rparr>] else [])
       else if startsWith (fst entry) ''.'' \<and> fst entry \<noteq> ''.github'' then []
       else if isDirectory (snd entry) then scan_packages fullPath (snd entry)
       else if fst entry = ''package.json''
       then [\<lparr>item_type = ''package.json'', item_path = fullPath\<rparr>]
       else if fst entry = ''package-lock.json''
       then [\<lparr>item_type = ''package-lock.json'', item_path = fullPath\<rparr>]
       else []) entries)"
| "scan_packages currentDir t = []"

definition findPackageFiles :: "string \<Rightarrow> fsnode \<Rightarrow> found_item list" where
  "findPackageFiles dir root = scan_packages dir root"

text \<open>The test of one non-directory entry in \<open>findMaliciousArtifacts\<close>.\<close>

definition artifact_matches :: "string \<Rightarrow> string \<Rightarrow> string \<Rightarrow> bool" where
  "artifact_matches fullPath name a =
     (if includes_str a ''/'' then endsWith fullPath a else name = a)"

definition check_file :: "string \<Rightarrow> string \<Rightarrow> found_artifact list" where
  "check_file fullPath name =
     map (\<lambda>a. \<lparr>artifact = a, artifact_path = fullPath\<rparr>)
       (filter (artifact_matches fullPath name) MALICIOUS_ARTIFACTS)
     @ (if includes_str fullPath ''.github/workflows/'' \<and> SUSPICIOUS_WORKFLOW_PATTERN_test name
        then [\<lparr>artifact = ''suspicious_workflow'', artifact_path = fullPath\<rparr>] else [])"

fun scan_artifacts :: "string \<Rightarrow> fsnode \<Rightarrow> found_artifact list" where
  "scan_artifacts currentDir (Dir entries) =
     concat (map (\<lambda>entry.
       let fullPath = path_join currentDir (fst entry) in
       if fst entry = ''node_modules'' then []
       else if isDirectory (snd entry) then scan_artifacts fullPath (snd entry)
       else check_file fullPath (fst entry)) entries)"
| "scan_artifacts currentDir t = []"

definition findMaliciousArtifacts :: "string \<Rightarrow> fsnode \<Rightarrow> found_artifact list" where
  "findMaliciousArtifacts dir root = scan_artifacts dir root"

text \<open>
  Names for places in a tree: \<open>file_at t ns\<close> holds when following the entry names
  \<open>ns\<close> from \<open>t\<close> through directories that can be read ends at an entry that is not a
  directory. \<open>prune\<close> removes every entry named \<open>node_modules\<close>, at every depth.
\<close>

fun file_at :: "fsnode \<Rightarrow> string list \<Rightarrow> bool" where
  "file_at (Dir entries) [n] = (\<exists>e \<in> set entries. fst e = n \<and> \<not> isDirectory (snd e))"
| "file_at (Dir entries) (n # m # ns) = (\<exists>e \<in> set entries. fst e = n \<and> file_at (snd e) (m # ns))"
| "file_at t ns = False"

fun prune :: "fsnode \<Rightarrow> fsnode" where
  "prune (Dir entries) =
     Dir (map (\<lambda>e. (fst e, prune (snd e))) (filter (\<lambda>e. fst e \<noteq> ''node_modules'') entries))"
| "prune t = t"

text \<open>
  A hidden entry for \<open>findPackageFiles\<close>: the name starts with a dot and is not
  \<open>.github\<close>. \<open>prune_hidden\<close> removes every such entry, at every depth.
\<close>

definition hidden_name :: "string \<Rightarrow> bool" where
  "hidden_name n = (startsWith n ''.'' \<and> n \<noteq> ''.github'')"

fun prune_hidden :: "fsnode \<Rightarrow> fsnode" where
  "prune_hidden (Dir entries) =
     Dir (map (\<lambda>e. (fst e, prune_hidden (snd e))) (filter (\<lambda>e. \<not> hidden_name (fst e)) entries))"
| "prune_hidden t = t"

section \<open>Parsed JSON documents\<close>

text \<open>
  The value that \<open>JSON.parse\<close> returns. An object is the list of its own properties in
  the order \<open>Object.entries\<close> gives them, with distinct keys. A number matters below
  only through being zero or not and through not being a string, so integers stand for
  all numbers.
\<close>

datatype json =
  JNull | JBool bool | JNum int | JStr string | JArr "json list" | JObj "(string \<times> json) list"

datatype js_error = TypeError

text \<open>The values that count as true in a condition; \<open>undefined\<close> is \<open>None\<close>.\<close>

fun truthy :: "json \<Rightarrow> bool" where
  "truthy JNull = False"
| "truthy (JBool b) = b"
| "truthy (JNum n) = (n \<noteq> 0)"
| "truthy (JStr s) = (s \<noteq> [])"
| "truthy (JArr xs) = True"
| "truthy (JObj kvs) = True"

text \<open>
  Reading a property \<open>v[k]\<close> or \<open>v.k\<close>, for the property names the analyzer reads (the
  dependency sections, \<open>scripts\<close> and the script names, \<open>packages\<close>, \<open>version\<close>): none
  of them is an array index or inherited from a prototype, so only an object can have
  one, and reading from \<open>null\<close> throws.
\<close>

fun get_prop :: "json \<Rightarrow> string \<Rightarrow> js_error + json option" where
  "get_prop JNull k = Inl TypeError"
| "get_prop (JObj kvs) k = Inr (map_of kvs k)"
| "get_prop v k = Inr None"

text \<open>An array index as a property key: the decimal digits of the number.\<close>

function index_key :: "nat \<Rightarrow> string" where
  "index_key n =
     (if n < 10 then [char_of (48 + n)]
      else index_key (n div 10) @ [char_of (48 + n mod 10)])"
  by pat_completeness auto
termination
  by (relation "measure (\<lambda>n. n)") auto

text \<open>
  \<open>Object.entries(v)\<close>, which the analyzer applies to values that count as true only: the
  properties of an object, the indexed elements of an array, the indexed characters of a
  string, nothing for a number or a boolean.
\<close>

fun object_entries :: "json \<Rightarrow> (string \<times> json) list" where
  "object_entries (JObj kvs) = kvs"
| "object_entries (JArr xs) = zip (map index_key [0..<length xs]) xs"
| "object_entries (JStr s) = zip (map index_key [0..<length s]) (map (\<lambda>c. JStr [c]) s)"
| "object_entries v = []"

text \<open>
  A loop that pushes findings and may throw: the findings of the elements in order, or
  the first error.
\<close>

fun collect :: "('a \<Rightarrow> js_error + 'b list) \<Rightarrow> 'a list \<Rightarrow> js_error + 'b list" where
  "collect f [] = Inr []"
| "collect f (x # xs) =
     (case f x of Inl e \<Rightarrow> Inl e
      | Inr ys \<Rightarrow> (case collect f xs of Inl e \<Rightarrow> Inl e | Inr zs \<Rightarrow> Inr (ys @ zs)))"

section \<open>The IOC database\<close>

text \<open>
  \<open>Map<string, Set<string>>\<close>: the keys in insertion order, each with its versions in
  insertion order. \<open>db_get\<close> is \<open>get\<close>, with \<open>None\<close> for a name that \<open>has\<close> denies.
\<close>

type_synonym iocdb = "(string \<times> string list) list"

definition db_has :: "iocdb \<Rightarrow> string \<Rightarrow> bool" where
  "db_has db name = (name \<in> set (map fst db))"

definition db_get :: "iocdb \<Rightarrow> string \<Rightarrow> string list option" where
  "db_get db name = map_of db name"

section \<open>Findings (lib/analyzer.js)\<close>

record finding =
  ftype :: string
  severity :: string
  package :: "string option"
  version :: "string option"
  declaredVersion :: "string option"
  infectedVersions :: "string list option"
  depType :: "string option"
  ffile :: "string option"
  path :: "string option"
  message :: "string option"
  note_text :: "string option"
  script :: "string option"
  content :: "json option"
  installed :: "bool option"

text \<open>An object literal with no property set; each finding sets the ones it has.\<close>

definition no_fields :: finding where
  "no_fields = \<lparr>ftype = [], severity = [], package = None, version = None,
     declaredVersion = None, infectedVersions = None, depType = None, ffile = None,
     path = None, message = None, note_text = None, script = None, content = None,
     installed = None\<rparr>"

definition parse_error_file :: "string \<Rightarrow> string \<Rightarrow> finding" where
  "parse_error_file filePath msg =
     no_fields\<lparr>ftype := ''PARSE_ERROR'', severity := ''INFO'', ffile := Some filePath,
       message := Some (''Failed to parse: '' @ msg)\<rparr>"

definition parse_error_path :: "string \<Rightarrow> string \<Rightarrow> finding" where
  "parse_error_path pkgJsonPath msg =
     no_fields\<lparr>ftype := ''PARSE_ERROR'', severity := ''INFO'', path := Some pkgJsonPath,
       message := Some (''Failed to parse: '' @ msg)\<rparr>"

definition infected_package :: "string \<Rightarrow> string \<Rightarrow> string \<Rightarrow> string \<Rightarrow> string \<Rightarrow> finding" where
  "infected_package pkg ver versionSpec dt filePath =
     no_fields\<lparr>ftype := ''INFECTED_PACKAGE'', severity := ''CRITICAL'', package := Some pkg,
       version := Some ver, declaredVersion := Some versionSpec, depType := Some dt,
       ffile := Some filePath\<rparr>"

text \<open>\<open>Array.from(infectedVersions).join(', ')\<close>\<close>

fun join_comma :: "string list \<Rightarrow> string" where
  "join_comma [] = []"
| "join_comma [v] = v"
| "join_comma (v # w # vs) = v @ '', '' @ join_comma (w # vs)"

definition known_target ::
  "string \<Rightarrow> string \<Rightarrow> string \<Rightarrow> string list \<Rightarrow> string \<Rightarrow> string \<Rightarrow> finding" where
  "known_target pkg ver versionSpec infected dt filePath =
     no_fields\<lparr>ftype := ''KNOWN_TARGET'', severity := ''WARNING'', package := Some pkg,
       version := Some ver, declaredVersion := Some versionSpec,
       infectedVersions := Some infected, depType := Some dt, ffile := Some filePath,
       note_text := Some (''This package was compromised in the Shai-Hulud 2 attack but you have a different version. Do NOT upgrade to: '' @ join_comma infected)\<rparr>"

definition suspicious_script :: "string \<Rightarrow> json \<Rightarrow> string \<Rightarrow> finding" where
  "suspicious_script name scriptContent filePath =
     no_fields\<lparr>ftype := ''SUSPICIOUS_SCRIPT'', severity := ''WARNING'', script := Some name,
       content := Some scriptContent, ffile := Some filePath\<rparr>"

definition infected_locked_package :: "string \<Rightarrow> string \<Rightarrow> string \<Rightarrow> finding" where
  "infected_locked_package pkgName ver filePath =
     no_fields\<lparr>ftype := ''INFECTED_LOCKED_PACKAGE'', severity := ''CRITICAL'',
       package := Some pkgName, version := Some ver, ffile := Some filePath,
       installed := Some True\<rparr>"

definition installed_infected_package :: "string \<Rightarrow> string \<Rightarrow> string \<Rightarrow> finding" where
  "installed_infected_package pkgName ver pkgPath =
     no_fields\<lparr>ftype := ''INSTALLED_INFECTED_PACKAGE'', severity := ''CRITICAL'',
       package := Some pkgName, version := Some ver, path := Some pkgPath\<rparr>"

section \<open>The manifest check (lib/analyzer.js, \<open>checkPackageJson\<close>)\<close>

definition DEPENDENCY_TYPES :: "string list" where
  "DEPENDENCY_TYPES =
     [''dependencies'', ''devDependencies'', ''peerDependencies'', ''optionalDependencies'']"

definition SUSPICIOUS_SCRIPTS :: "string list" where
  "SUSPICIOUS_SCRIPTS = [''preinstall'', ''postinstall'', ''prepare'']"

definition SUSPICIOUS_SCRIPT_PATTERNS :: "string list" where
  "SUSPICIOUS_SCRIPT_PATTERNS = [''bun'', ''setup_'', ''curl'', ''wget'', ''eval'']"

text \<open>
  The body of the inner loop, for one \<open>[pkg, versionSpec]\<close> of a section: a name the
  database does not have is passed over before anything else; \<open>extractVersion\<close> calls
  \<open>versionSpec.replace\<close>, which only a string has, so any other value throws.
\<close>

definition check_dependency ::
  "string \<Rightarrow> iocdb \<Rightarrow> string \<Rightarrow> string \<times> json \<Rightarrow> js_error + finding list" where
  "check_dependency filePath db dt entry =
     (case db_get db (fst entry) of
        None \<Rightarrow> Inr []
      | Some infected \<Rightarrow>
          (case snd entry of
             JStr versionSpec \<Rightarrow>
               (let ver = extractVersion versionSpec in
                if ver \<in> set infected
                then Inr [infected_package (fst entry) ver versionSpec dt filePath]
                else Inr [known_target (fst entry) ver versionSpec infected dt filePath])
           | _ \<Rightarrow> Inl TypeError))"

text \<open>The body of the outer loop, for one dependency type.\<close>

definition check_dependency_type ::
  "string \<Rightarrow> iocdb \<Rightarrow> json \<Rightarrow> string \<Rightarrow> js_error + finding list" where
  "check_dependency_type filePath db doc dt =
     (case get_prop doc dt of
        Inl e \<Rightarrow> Inl e
      | Inr None \<Rightarrow> Inr []
      | Inr (Some deps) \<Rightarrow>
          if \<not> truthy deps then Inr []
          else collect (check_dependency filePath db dt) (object_entries deps))"

text \<open>
  \<open>SUSPICIOUS_SCRIPT_PATTERNS.some(pattern => scriptContent.includes(pattern))\<close>: a string
  is searched for the pattern, an array for an element equal to it, and any other value
  that counts as true has no \<open>includes\<close>, so the first call throws.
\<close>

fun isSuspicious :: "json \<Rightarrow> js_error + bool" where
  "isSuspicious (JStr s) = Inr (\<exists>p \<in> set SUSPICIOUS_SCRIPT_PATTERNS. includes_str s p)"
| "isSuspicious (JArr xs) = Inr (\<exists>p \<in> set SUSPICIOUS_SCRIPT_PATTERNS. JStr p \<in> set xs)"
| "isSuspicious v = Inl TypeError"

definition check_script :: "string \<Rightarrow> json \<Rightarrow> string \<Rightarrow> js_error + finding list" where
  "check_script filePath scripts name =
     (case get_prop scripts name of
        Inl e \<Rightarrow> Inl e
      | Inr None \<Rightarrow> Inr []
      | Inr (Some scriptContent) \<Rightarrow>
          if \<not> truthy scriptContent then Inr []
          else (case isSuspicious scriptContent of
                  Inl e \<Rightarrow> Inl e
                | Inr b \<Rightarrow> Inr (if b then [suspicious_script name scriptContent filePath]
                                else [])))"

definition check_scripts :: "string \<Rightarrow> json \<Rightarrow> js_error + finding list" where
  "check_scripts filePath doc =
     (case get_prop doc ''scripts'' of
        Inl e \<Rightarrow> Inl e
      | Inr None \<Rightarrow> Inr []
      | Inr (Some scripts) \<Rightarrow>
          if \<not> truthy scripts then Inr []
          else collect (check_script filePath scripts) SUSPICIOUS_SCRIPTS)"

text \<open>
  \<open>checkPackageJson(filePath, infectedPackages, options)\<close>. The last argument is what
  \<open>JSON.parse(fs.readFileSync(filePath, 'utf8'))\<close> gives: the document, or the message
  of the error that either call throws. The result is the returned array, or the error
  that leaves the call.
\<close>

definition checkPackageJson ::
  "string \<Rightarrow> iocdb \<Rightarrow> bool \<Rightarrow> string + json \<Rightarrow> js_error + finding list" where
  "checkPackageJson filePath infectedPackages verbose parsed =
     (case parsed of
        Inl msg \<Rightarrow> Inr (if verbose then [parse_error_file filePath msg] else [])
      | Inr doc \<Rightarrow>
          (case collect (check_dependency_type filePath infectedPackages doc) DEPENDENCY_TYPES of
             Inl e \<Rightarrow> Inl e
           | Inr deps \<Rightarrow>
               (case check_scripts filePath doc of
                  Inl e \<Rightarrow> Inl e
                | Inr scripts \<Rightarrow> Inr (deps @ scripts))))"

section \<open>The lockfile check (\<open>checkPackageLock\<close>)\<close>

text \<open>\<^verbatim>\<open>pkgPath.replace('node_modules/', '').split('node_modules/')\<close>, last element.\<close>

definition pkgName_of :: "string \<Rightarrow> string" where
  "pkgName_of pkgPath = last (split (replace pkgPath ''node_modules/'' []) ''node_modules/'')"

text \<open>
  The check of one name with its entry, shared by the two lockfile shapes:
  \<open>infectedPackages.has(name) && info.version\<close> reads \<open>info.version\<close> only for a name the
  database has, and \<open>infectedVersions.has(info.version)\<close> finds strings only.
\<close>

definition check_locked :: "string \<Rightarrow> iocdb \<Rightarrow> string \<Rightarrow> json \<Rightarrow> js_error + finding list" where
  "check_locked filePath db name info =
     (case db_get db name of
        None \<Rightarrow> Inr []
      | Some infected \<Rightarrow>
          (case get_prop info ''version'' of
             Inl e \<Rightarrow> Inl e
           | Inr (Some (JStr v)) \<Rightarrow>
               if v \<noteq> [] \<and> v \<in> set infected
               then Inr [infected_locked_package name v filePath] else Inr []
           | Inr _ \<Rightarrow> Inr []))"

definition check_packages_entry ::
  "string \<Rightarrow> iocdb \<Rightarrow> string \<times> json \<Rightarrow> js_error + finding list" where
  "check_packages_entry filePath db entry =
     (if fst entry = [] then Inr []
      else check_locked filePath db (pkgName_of (fst entry)) (snd entry))"

lemma collect_cong [fundef_cong]:
  "xs = ys \<Longrightarrow> (\<And>x. x \<in> set ys \<Longrightarrow> f x = g x) \<Longrightarrow> collect f xs = collect g ys"
  by (induction ys arbitrary: xs) (auto split: sum.splits)

lemma object_entries_nested_smaller:
  "e \<in> set (object_entries deps) \<Longrightarrow> get_prop (snd e) k = Inr (Some d) \<Longrightarrow>
   size d < size deps"
proof (cases deps)
  case (JObj kvs)
  assume e: "e \<in> set (object_entries deps)" and d: "get_prop (snd e) k = Inr (Some d)"
  from d obtain kvs' where s: "snd e = JObj kvs'" and m: "map_of kvs' k = Some d"
    by (cases "snd e") auto
  from m have "(k, d) \<in> set kvs'"
    by (rule map_of_SomeD)
  then have "size d < size (JObj kvs')"
    by (induction kvs') auto
  moreover from e JObj have "(fst e, snd e) \<in> set kvs"
    by simp
  then have "size (snd e) < size (JObj kvs)"
    by (induction kvs) auto
  ultimately show ?thesis
    using s JObj by simp
next
  case (JArr xs)
  assume e: "e \<in> set (object_entries deps)" and d: "get_prop (snd e) k = Inr (Some d)"
  from d obtain kvs' where s: "snd e = JObj kvs'" and m: "map_of kvs' k = Some d"
    by (cases "snd e") auto
  from m have "(k, d) \<in> set kvs'"
    by (rule map_of_SomeD)
  then have "size d < size (JObj kvs')"
    by (induction kvs') auto
  moreover from e JArr
  have "(fst e, snd e) \<in> set (zip (map index_key [0..<length xs]) xs)"
    by simp
  then have "snd e \<in> set xs"
    by (rule set_zip_rightD)
  then have "size (snd e) < size (JArr xs)"
    by (induction xs) auto
  ultimately show ?thesis
    using s JArr by simp
next
  case (JStr str)
  assume e: "e \<in> set (object_entries deps)" and d: "get_prop (snd e) k = Inr (Some d)"
  from e JStr
  have "(fst e, snd e) \<in> set (zip (map index_key [0..<length str]) (map (\<lambda>c. JStr [c]) str))"
    by simp
  then have "snd e \<in> set (map (\<lambda>c. JStr [c]) str)"
    by (rule set_zip_rightD)
  then obtain c where "snd e = JStr [c]"
    by auto
  with d show ?thesis by simp
qed simp_all

text \<open>
  \<open>checkDependenciesV1(deps, filePath, infectedPackages, findings)\<close>: for each entry its
  own finding first, then those of its nested \<open>dependencies\<close> when that property counts
  as true.
\<close>

function checkDependenciesV1 :: "string \<Rightarrow> iocdb \<Rightarrow> json \<Rightarrow> js_error + finding list" where
  "checkDependenciesV1 filePath db deps =
     collect (\<lambda>entry.
       case check_locked filePath db (fst entry) (snd entry) of
         Inl e \<Rightarrow> Inl e
       | Inr own \<Rightarrow>
           (case get_prop (snd entry) ''dependencies'' of
              Inl e \<Rightarrow> Inl e
            | Inr None \<Rightarrow> Inr own
            | Inr (Some nested) \<Rightarrow>
                if \<not> truthy nested then Inr own
                else (case checkDependenciesV1 filePath db nested of
                        Inl e \<Rightarrow> Inl e
                      | Inr below \<Rightarrow> Inr (own @ below))))
       (object_entries deps)"
  by pat_completeness auto
termination
  by (relation "measure (\<lambda>(filePath, db, deps). size deps)")
    (auto dest: object_entries_nested_smaller)

declare checkDependenciesV1.simps [simp del]

text \<open>
  \<open>checkPackageLock(filePath, infectedPackages, options)\<close>, with the parse result as for
  \<open>checkPackageJson\<close>: first the \<open>packages\<close> mapping (\<open>content.packages || {}\<close>), then the
  \<open>dependencies\<close> tree when the document has one.
\<close>

definition checkPackageLock ::
  "string \<Rightarrow> iocdb \<Rightarrow> bool \<Rightarrow> string + json \<Rightarrow> js_error + finding list" where
  "checkPackageLock filePath infectedPackages verbose parsed =
     (case parsed of
        Inl msg \<Rightarrow> Inr (if verbose then [parse_error_file filePath msg] else [])
      | Inr doc \<Rightarrow>
          (case get_prop doc ''packages'' of
             Inl e \<Rightarrow> Inl e
           | Inr p \<Rightarrow>
               (let packages = (case p of None \<Rightarrow> JObj []
                                | Some v \<Rightarrow> if truthy v then v else JObj [])
                in case collect (check_packages_entry filePath infectedPackages)
                          (object_entries packages) of
                     Inl e \<Rightarrow> Inl e
                   | Inr v2 \<Rightarrow>
                       (case get_prop doc ''dependencies'' of
                          Inl e \<Rightarrow> Inl e
                        | Inr None \<Rightarrow> Inr v2
                        | Inr (Some deps) \<Rightarrow>
                            if \<not> truthy deps then Inr v2
                            else (case checkDependenciesV1 filePath infectedPackages deps of
                                    Inl e \<Rightarrow> Inl e
                                  | Inr v1 \<Rightarrow> Inr (v2 @ v1))))))"

section \<open>The installed-package check (\<open>checkInstalledPackage\<close>)\<close>

text \<open>
  The nested \<open>package.json\<close> of a package directory: \<open>Missing\<close> when \<open>fs.existsSync\<close> is
  false, \<open>Unparsable\<close> with the message when reading or parsing it throws, \<open>Parsed\<close> with
  the document otherwise.
\<close>

datatype nested_manifest = Missing | Unparsable string | Parsed json

text \<open>The findings that one call pushes, or the error that leaves it.\<close>

definition checkInstalledPackage ::
  "string \<Rightarrow> string \<Rightarrow> iocdb \<Rightarrow> bool \<Rightarrow> nested_manifest \<Rightarrow> js_error + finding list" where
  "checkInstalledPackage pkgName pkgPath infectedPackages verbose manifest =
     (case db_get infectedPackages pkgName of
        None \<Rightarrow> Inr []
      | Some infected \<Rightarrow>
          (case manifest of
             Missing \<Rightarrow> Inr []
           | Unparsable msg \<Rightarrow>
               Inr (if verbose
                    then [parse_error_path (path_join pkgPath ''package.json'') msg] else [])
           | Parsed pkgJson \<Rightarrow>
               (case get_prop pkgJson ''version'' of
                  Inl e \<Rightarrow> Inl e
                | Inr (Some (JStr v)) \<Rightarrow>
                    if v \<in> set infected
                    then Inr [installed_infected_package pkgName v pkgPath] else Inr []
                | Inr _ \<Rightarrow> Inr [])))"

section \<open>Loading the IOC database (lib/loader.js)\<close>

text \<open>
  \<open>addPackage(packages, name, version)\<close>: a new name is entered with an empty set, then
  the version is added to the set of the name (once: it is a \<open>Set\<close>).
\<close>

definition addPackage :: "iocdb \<Rightarrow> string \<Rightarrow> string \<Rightarrow> iocdb" where
  "addPackage packages name ver =
     (let entered = (if db_has packages name then packages else packages @ [(name, [])])
      in map (\<lambda>entry. if fst entry = name
                        then (fst entry,
                              if ver \<in> set (snd entry) then snd entry else snd entry @ [ver])
                        else entry) entered)"

text \<open>
  The body of the loop over the lines, on the pair of \<open>inTable\<close> and \<open>packages\<close>. A
  header or separator line switches table mode on and is otherwise skipped
  (\<open>continue\<close>); in table mode a line starting with \<open>|\<close> is a table row, whether it
  holds a tab or not; any other line that holds a tab is a tab-separated row.
\<close>

definition load_line :: "bool \<times> iocdb \<Rightarrow> string \<Rightarrow> bool \<times> iocdb" where
  "load_line state line =
     (let inTable = fst state; packages = snd state in
      if includes_str line ''| Package'' \<or> includes_str line ''|---'' then (True, packages)
      else if inTable \<and> startsWith line ''|'' then
        (case filter (\<lambda>p. p \<noteq> []) (map trim (split line ''|'')) of
           name # ver # others \<Rightarrow>
             if name \<noteq> [] \<and> ver \<noteq> [] \<and> \<not> includes_str name ''Package''
             then (inTable, addPackage packages name ver) else (inTable, packages)
         | _ \<Rightarrow> (inTable, packages))
      else if includes_str line [tab] then
        (case split (trim line) [tab] of
           p0 # p1 # others \<Rightarrow>
             if trim p0 \<noteq> [] \<and> trim p1 \<noteq> []
             then (inTable, addPackage packages (trim p0) (trim p1)) else (inTable, packages)
         | _ \<Rightarrow> (inTable, packages))
      else (inTable, packages))"

text \<open>
  \<open>loadInfectedPackages(wormFile)\<close>. The argument is what \<open>fs.readFileSync(wormFile,
  'utf8')\<close> gives: the content, or the message of the error it throws, which the function
  does not catch.
\<close>

definition loadInfectedPackages :: "string + string \<Rightarrow> string + iocdb" where
  "loadInfectedPackages source =
     (case source of
        Inl err \<Rightarrow> Inl err
      | Inr text \<Rightarrow> Inr (snd (foldl load_line (False, []) (split text [newline]))))"

text \<open>The set of versions that the database holds for a name, empty for a name it lacks.\<close>

definition versions_of :: "iocdb \<Rightarrow> string \<Rightarrow> string set" where
  "versions_of db name = (case db_get db name of None \<Rightarrow> {} | Some vs \<Rightarrow> set vs)"

subsection \<open>The two renderings of a list of entries\<close>

text \<open>
  Following the specification's description of the two file formats (a Markdown table
  \<open>| name | version | ... |\<close> with a separator row, or tab-separated rows
  \<open>name<TAB>version<TAB>...\<close>, where lines of neither shape are ignored), a document is a
  list of lines of three kinds: a marker line (the header row or a separator row of a
  table), a line that is skipped, and the row of an entry together with its further
  cells or columns. Lines are joined by line feeds.
\<close>

fun join_lines :: "string list \<Rightarrow> string" where
  "join_lines [] = []"
| "join_lines [l] = l"
| "join_lines (l # k # ls) = l @ newline # join_lines (k # ls)"

datatype doc_line = Marker string | Skipped string | Entry "string \<times> string" "string list"

text \<open>
  A table row is \<open>|\<close> followed by \<open> cell |\<close> for the name, the version and each further
  cell; a tab-separated row is the name followed by \<open><TAB>column\<close> for the version and
  each further column.
\<close>

definition table_row :: "string \<times> string \<Rightarrow> string list \<Rightarrow> string" where
  "table_row e cells = CHR ''|'' # concat (map (\<lambda>c. CHR '' '' # c @ '' |'') (fst e # snd e # cells))"

definition tsv_row :: "string \<times> string \<Rightarrow> string list \<Rightarrow> string" where
  "tsv_row e columns = fst e @ concat (map (\<lambda>c. tab # c) (snd e # columns))"

fun table_line :: "doc_line \<Rightarrow> string" where
  "table_line (Marker h) = h"
| "table_line (Skipped l) = l"
| "table_line (Entry e cells) = table_row e cells"

fun tsv_line :: "doc_line \<Rightarrow> string" where
  "tsv_line (Marker h) = h"
| "tsv_line (Skipped l) = l"
| "tsv_line (Entry e columns) = tsv_row e columns"

fun entries_of :: "doc_line list \<Rightarrow> (string \<times> string) list" where
  "entries_of [] = []"
| "entries_of (Entry e cells # ls) = e # entries_of ls"
| "entries_of (l # ls) = entries_of ls"

definition render_table :: "doc_line list \<Rightarrow> string" where
  "render_table doc = join_lines (map table_line doc)"

definition render_tsv :: "doc_line list \<Rightarrow> string" where
  "render_tsv doc = join_lines (map tsv_line doc)"

text \<open>A field that can be rendered is a non-empty string without white space and without
  \<open>|\<close>.\<close>

definition field_ok :: "string \<Rightarrow> bool" where
  "field_ok s = (s \<noteq> [] \<and> (\<forall>c \<in> set s. \<not> is_space c \<and> c \<noteq> CHR ''|''))"

text \<open>An entry that both renderings keep: moreover the name does not contain the word
  \<open>Package\<close> and the version does not begin with it.\<close>

definition entry_ok :: "string \<times> string \<Rightarrow> bool" where
  "entry_ok e =
     (field_ok (fst e) \<and> field_ok (snd e)
      \<and> \<not> includes_str (fst e) ''Package'' \<and> \<not> prefix ''Package'' (snd e))"

text \<open>
  The lines of a well-formed document. A marker line contains \<open>| Package\<close> or \<open>|---\<close>. A
  skipped line contains neither, holds no tab and does not start with \<open>|\<close> (a blank line
  is one). A further cell of a table row holds no \<open>|\<close> and does not begin with
  \<open>Package\<close>; a further column of a tab-separated row holds no \<open>|\<close>. No line holds a
  line feed.
\<close>

definition marker_ok :: "string \<Rightarrow> bool" where
  "marker_ok h =
     ((includes_str h ''| Package'' \<or> includes_str h ''|---'') \<and> newline \<notin> set h)"

definition skipped_ok :: "string \<Rightarrow> bool" where
  "skipped_ok l =
     (\<not> includes_str l ''| Package'' \<and> \<not> includes_str l ''|---'' \<and> \<not> startsWith l ''|''
      \<and> tab \<notin> set l \<and> newline \<notin> set l)"

definition cell_ok :: "string \<Rightarrow> bool" where
  "cell_ok c = (CHR ''|'' \<notin> set c \<and> newline \<notin> set c \<and> \<not> prefix ''Package'' c)"

definition column_ok :: "string \<Rightarrow> bool" where
  "column_ok c = (CHR ''|'' \<notin> set c \<and> newline \<notin> set c)"

fun table_line_ok :: "doc_line \<Rightarrow> bool" where
  "table_line_ok (Marker h) = marker_ok h"
| "table_line_ok (Skipped l) = skipped_ok l"
| "table_line_ok (Entry e cells) = (entry_ok e \<and> list_all cell_ok cells)"

fun tsv_line_ok :: "doc_line \<Rightarrow> bool" where
  "tsv_line_ok (Marker h) = False"
| "tsv_line_ok (Skipped l) = skipped_ok l"
| "tsv_line_ok (Entry e columns) = (entry_ok e \<and> list_all column_ok columns)"

text \<open>
  A well-formed table: skipped lines, then the header row, then rows, separator rows and
  skipped lines in any order. Well-formed tab-separated text: rows and skipped lines in
  any order.
\<close>

fun table_ok :: "doc_line list \<Rightarrow> bool" where
  "table_ok [] = False"
| "table_ok (Skipped l # ls) = (skipped_ok l \<and> table_ok ls)"
| "table_ok (Marker h # ls) = (marker_ok h \<and> list_all table_line_ok ls)"
| "table_ok (Entry e cells # ls) = False"

definition tsv_ok :: "doc_line list \<Rightarrow> bool" where
  "tsv_ok doc = list_all tsv_line_ok doc"

text \<open>
  The first and the second tab-separated field of a trimmed line, read off directly: what
  stands before the first tab, and what stands between the first tab and the second (or
  the end).
\<close>

definition tab_field1 :: "string \<Rightarrow> string" where
  "tab_field1 line = takeWhile (\<lambda>c. c \<noteq> tab) (trim line)"

definition tab_field2 :: "string \<Rightarrow> string" where
  "tab_field2 line = takeWhile (\<lambda>c. c \<noteq> tab) (tl (dropWhile (\<lambda>c. c \<noteq> tab) (trim line)))"

text \<open>Entering the entries of a list one after the other.\<close>

abbreviation add_entry :: "iocdb \<Rightarrow> string \<times> string \<Rightarrow> iocdb" where
  "add_entry db e \<equiv> addPackage db (fst e) (snd e)"

section \<open>Facts about strings\<close>

lemma split_from_nonempty: "split_from sep cur s \<noteq> []"
  by (induction sep cur s rule: split_from.induct) auto

lemma split_from_char_absent:
  "c \<notin> set s \<Longrightarrow> split_from [c] cur s = [rev cur @ s]"
  by (induction s arbitrary: cur) auto

lemma split_from_char_append:
  "c \<notin> set a \<Longrightarrow> split_from [c] cur (a @ c # b) = (rev cur @ a) # split_from [c] [] b"
  by (induction a arbitrary: cur) auto

lemma split_char_absent: "c \<notin> set s \<Longrightarrow> split s [c] = [s]"
  by (simp add: split_def split_from_char_absent)

lemma split_char_append:
  "c \<notin> set a \<Longrightarrow> split (a @ c # b) [c] = a # split b [c]"
  by (simp add: split_def split_from_char_append)

lemma hd_split_char: "hd (split s [c]) = takeWhile (\<lambda>x. x \<noteq> c) s"
proof (cases "c \<in> set s")
  case False
  then have tw: "takeWhile (\<lambda>x. x \<noteq> c) s = s"
    by auto
  from False have "hd (split s [c]) = s"
    by (simp add: split_char_absent)
  then show ?thesis
    by (simp only: tw)
next
  case True
  then obtain a b where s: "s = a @ c # b" and a: "c \<notin> set a"
    by (meson split_list_first)
  have "takeWhile (\<lambda>x. x \<noteq> c) (a @ c # b) = a"
    using a by (induction a) auto
  then show ?thesis
    using a s by (simp add: split_char_append)
qed

lemma extractVersion_eq:
  "extractVersion s = takeWhile (\<lambda>x. x \<noteq> CHR '' '') (dropWhile is_operator s)"
  by (simp add: extractVersion_def hd_split_char)

lemma extractVersion_no_operator_front:
  "extractVersion s \<noteq> [] \<Longrightarrow> \<not> is_operator (hd (extractVersion s))"
proof -
  assume ne: "extractVersion s \<noteq> []"
  let ?t = "dropWhile is_operator s"
  from ne have t: "?t \<noteq> []"
    by (cases ?t) (simp_all add: extractVersion_eq)
  then have "\<not> is_operator (hd ?t)"
    by (simp add: hd_dropWhile)
  moreover have "hd (extractVersion s) = hd ?t"
    using ne t by (cases ?t) (auto simp: extractVersion_eq split: if_splits)
  ultimately show ?thesis by simp
qed

section \<open>Facts about the two traversals\<close>

lemma scan_artifacts_sound:
  "r \<in> set (scan_artifacts d t) \<Longrightarrow>
   \<exists>ns. file_at t ns \<and> ''node_modules'' \<notin> set ns
     \<and> r \<in> set (check_file (foldl path_join d ns) (last ns))"
proof (induction d t arbitrary: r rule: scan_artifacts.induct)
  case (1 currentDir entries)
  from "1.prems" obtain e where e: "e \<in> set entries" and nm: "fst e \<noteq> ''node_modules''"
    and r: "r \<in> set (if isDirectory (snd e)
                        then scan_artifacts (path_join currentDir (fst e)) (snd e)
                        else check_file (path_join currentDir (fst e)) (fst e))"
    by (auto simp: Let_def split: if_splits)
  show ?case
  proof (cases "isDirectory (snd e)")
    case True
    with r have "r \<in> set (scan_artifacts (path_join currentDir (fst e)) (snd e))"
      by simp
    from "1.IH"[OF e refl nm True this]
    obtain ns where ns: "file_at (snd e) ns" "''node_modules'' \<notin> set ns"
      "r \<in> set (check_file (foldl path_join (path_join currentDir (fst e)) ns) (last ns))"
      by blast
    from ns(1) obtain m ms where ms: "ns = m # ms"
      by (cases ns) auto
    have "file_at (Dir entries) (fst e # ns)"
      using e ns(1) ms by auto
    moreover have "''node_modules'' \<notin> set (fst e # ns)"
      using nm ns(2) by simp
    moreover have "r \<in> set (check_file (foldl path_join currentDir (fst e # ns))
                               (last (fst e # ns)))"
      using ns(3) ms by simp
    ultimately show ?thesis by blast
  next
    case False
    with r have "r \<in> set (check_file (path_join currentDir (fst e)) (fst e))"
      by simp
    moreover have "file_at (Dir entries) [fst e]"
      using e False by auto
    ultimately show ?thesis
      using nm by (intro exI[of _ "[fst e]"]) simp
  qed
qed simp_all

lemma scan_artifacts_complete:
  "file_at t ns \<Longrightarrow> ''node_modules'' \<notin> set ns \<Longrightarrow>
   set (check_file (foldl path_join d ns) (last ns)) \<subseteq> set (scan_artifacts d t)"
proof (induction t ns arbitrary: d rule: file_at.induct)
  case (1 entries n)
  then obtain e where e: "e \<in> set entries" "fst e = n" "\<not> isDirectory (snd e)"
    by auto
  with "1.prems" show ?case
    by (auto simp: Let_def intro!: bexI[of _ e])
next
  case (2 entries n m ns)
  then obtain e where e: "e \<in> set entries" "fst e = n" "file_at (snd e) (m # ns)"
    by auto
  then have dir: "isDirectory (snd e)"
    by (cases "snd e") auto
  from "2.IH"[OF e(1) e(3)] "2.prems"(2)
  have "set (check_file (foldl path_join (path_join d n) (m # ns)) (last (m # ns)))
      \<subseteq> set (scan_artifacts (path_join d n) (snd e))"
    by simp
  with e dir "2.prems"(2) show ?case
    by (auto simp: Let_def intro!: bexI[of _ e])
qed simp_all

lemma check_file_path: "r \<in> set (check_file fp name) \<Longrightarrow> artifact_path r = fp"
  by (auto simp: check_file_def split: if_splits)

lemma suspicious_workflow_not_artifact: "''suspicious_workflow'' \<notin> set MALICIOUS_ARTIFACTS"
  by (simp add: MALICIOUS_ARTIFACTS_def)

lemma check_file_basename:
  assumes "a \<in> set MALICIOUS_ARTIFACTS" and "\<not> includes_str a ''/''"
  shows "(\<lparr>artifact = a, artifact_path = fp\<rparr> \<in> set (check_file fp name)) \<longleftrightarrow> name = a"
proof -
  from assms(1) suspicious_workflow_not_artifact have ne: "a \<noteq> ''suspicious_workflow''"
    by blast
  have m: "artifact_matches fp name a = (name = a)"
    using assms(2) by (simp add: artifact_matches_def)
  have "(\<lparr>artifact = a, artifact_path = fp\<rparr> \<in> set (check_file fp name))
      \<longleftrightarrow> a \<in> set MALICIOUS_ARTIFACTS \<and> artifact_matches fp name a"
    using ne by (auto simp: check_file_def)
  with assms(1) m show ?thesis by simp
qed

lemma concat_map_filter:
  "(\<And>x. x \<in> set xs \<Longrightarrow> \<not> P x \<Longrightarrow> f x = []) \<Longrightarrow>
   (\<And>x. x \<in> set xs \<Longrightarrow> P x \<Longrightarrow> g (h x) = f x) \<Longrightarrow>
   concat (map g (map h (filter P xs))) = concat (map f xs)"
  by (induction xs) auto

lemma isDirectory_prune: "isDirectory (prune t) = isDirectory t"
  by (cases t) auto

lemma scan_artifacts_prune: "scan_artifacts d (prune t) = scan_artifacts d t"
proof (induction d t rule: scan_artifacts.induct)
  case (1 currentDir entries)
  show ?case
    unfolding prune.simps scan_artifacts.simps
    by (rule concat_map_filter) (auto simp: Let_def isDirectory_prune "1.IH")
qed simp_all

lemma isDirectory_prune_hidden: "isDirectory (prune_hidden t) = isDirectory t"
  by (cases t) auto

lemma existsSync_prune_hidden: "existsSync (prune_hidden t) = existsSync t"
  by (cases t) auto

lemma dot_not_node_modules: "startsWith ''node_modules'' ''.'' \<Longrightarrow> False"
  by (simp add: startsWith_def)

lemma scan_packages_prune_hidden: "scan_packages d (prune_hidden t) = scan_packages d t"
proof (induction d t rule: scan_packages.induct)
  case (1 currentDir entries)
  show ?case
    unfolding prune_hidden.simps scan_packages.simps
    by (rule concat_map_filter)
      (auto simp: Let_def isDirectory_prune_hidden existsSync_prune_hidden hidden_name_def
        "1.IH" dest: dot_not_node_modules)
qed simp_all

lemma package_json_not_special:
  "''package.json'' \<noteq> ''node_modules''" "\<not> hidden_name ''package.json''"
  "''package.json'' \<noteq> ''package-lock.json''"
  by (simp_all add: hidden_name_def startsWith_def)

lemma scan_packages_manifest_sound:
  "r \<in> set (scan_packages d t) \<Longrightarrow> item_type r = ''package.json'' \<Longrightarrow>
   \<exists>ns. file_at t ns \<and> ''node_modules'' \<notin> set ns \<and> (\<forall>n \<in> set ns. \<not> hidden_name n)
     \<and> last ns = ''package.json'' \<and> item_path r = foldl path_join d ns"
proof (induction d t arbitrary: r rule: scan_packages.induct)
  case (1 currentDir entries)
  let ?fp = "\<lambda>e. path_join currentDir (fst e)"
  let ?body = "\<lambda>entry.
       let fullPath = path_join currentDir (fst entry) in
       if fst entry = ''node_modules''
       then (if existsSync (snd entry)
             then [\<lparr>item_type = ''node_modules'', item_path = fullPath\<rparr>] else [])
       else if startsWith (fst entry) ''.'' \<and> fst entry \<noteq> ''.github'' then []
       else if isDirectory (snd entry) then scan_packages fullPath (snd entry)
       else if fst entry = ''package.json''
       then [\<lparr>item_type = ''package.json'', item_path = fullPath\<rparr>]
       else if fst entry = ''package-lock.json''
       then [\<lparr>item_type = ''package-lock.json'', item_path = fullPath\<rparr>]
       else []"
  from "1.prems"(1) have "r \<in> set (concat (map ?body entries))"
    by (simp only: scan_packages.simps)
  then obtain e where e: "e \<in> set entries" and step: "r \<in> set (?body e)"
    by (simp only: set_concat set_map) blast
  from step have r: "r \<in> set (if fst e = ''node_modules''
       then (if existsSync (snd e)
             then [\<lparr>item_type = ''node_modules'', item_path = ?fp e\<rparr>] else [])
       else if startsWith (fst e) ''.'' \<and> fst e \<noteq> ''.github'' then []
       else if isDirectory (snd e) then scan_packages (?fp e) (snd e)
       else if fst e = ''package.json''
       then [\<lparr>item_type = ''package.json'', item_path = ?fp e\<rparr>]
       else if fst e = ''package-lock.json''
       then [\<lparr>item_type = ''package-lock.json'', item_path = ?fp e\<rparr>]
       else [])"
    by (simp only: Let_def)
  have nm: "fst e \<noteq> ''node_modules''"
  proof
    assume "fst e = ''node_modules''"
    with r have "item_type r = ''node_modules''"
      by (auto split: if_splits)
    with "1.prems"(2) show False by simp
  qed
  have nh: "\<not> hidden_name (fst e)"
    using r nm by (auto simp: hidden_name_def split: if_splits)
  then have nh': "\<not> (startsWith (fst e) ''.'' \<and> fst e \<noteq> ''.github'')"
    by (simp add: hidden_name_def)
  show ?case
  proof (cases "isDirectory (snd e)")
    case True
    with r nm nh' have "r \<in> set (scan_packages (?fp e) (snd e))"
      by (simp split: if_splits)
    from "1.IH"[OF e refl nm nh' True this "1.prems"(2)]
    obtain ns where ns: "file_at (snd e) ns" "''node_modules'' \<notin> set ns"
      "\<forall>n \<in> set ns. \<not> hidden_name n" "last ns = ''package.json''"
      "item_path r = foldl path_join (?fp e) ns"
      by blast
    from ns(1) obtain m ms where ms: "ns = m # ms"
      by (cases ns) auto
    have "file_at (Dir entries) (fst e # ns)"
      using e ns(1) ms by auto
    moreover have "''node_modules'' \<notin> set (fst e # ns)"
      using nm ns(2) by simp
    moreover have "\<forall>n \<in> set (fst e # ns). \<not> hidden_name n"
      using nh ns(3) by simp
    moreover have "last (fst e # ns) = ''package.json''"
      using ns(4) ms by simp
    moreover have "item_path r = foldl path_join currentDir (fst e # ns)"
      using ns(5) by simp
    ultimately show ?thesis by blast
  next
    case False
    with r nm nh' "1.prems"(2) have f: "fst e = ''package.json''" "item_path r = ?fp e"
      by (auto split: if_splits)
    have "file_at (Dir entries) [fst e]"
      using e False by auto
    with f nm nh show ?thesis
      by (intro exI[of _ "[fst e]"]) simp
  qed
qed simp_all

lemma scan_packages_manifest_complete:
  "file_at t ns \<Longrightarrow> ''node_modules'' \<notin> set ns \<Longrightarrow> \<forall>n \<in> set ns. \<not> hidden_name n \<Longrightarrow>
   last ns = ''package.json'' \<Longrightarrow>
   \<lparr>item_type = ''package.json'', item_path = foldl path_join d ns\<rparr> \<in> set (scan_packages d t)"
proof (induction t ns arbitrary: d rule: file_at.induct)
  case (1 entries n)
  then obtain e where e: "e \<in> set entries" "fst e = n" "\<not> isDirectory (snd e)"
    by auto
  from "1.prems" have n: "n = ''package.json''"
    by simp
  with e package_json_not_special show ?case
    by (auto simp: Let_def hidden_name_def intro!: bexI[of _ e])
next
  case (2 entries n m ns)
  then obtain e where e: "e \<in> set entries" "fst e = n" "file_at (snd e) (m # ns)"
    by auto
  then have dir: "isDirectory (snd e)"
    by (cases "snd e") auto
  from "2.prems" have n: "n \<noteq> ''node_modules''" "\<not> (startsWith n ''.'' \<and> n \<noteq> ''.github'')"
    by (auto simp: hidden_name_def)
  from "2.IH"[OF e(1) e(3)] "2.prems"
  have "\<lparr>item_type = ''package.json'', item_path = foldl path_join (path_join d n) (m # ns)\<rparr>
      \<in> set (scan_packages (path_join d n) (snd e))"
    by simp
  with e dir n show ?case
    by (auto simp: Let_def intro!: bexI[of _ e])
qed simp_all

section \<open>Facts about the analyzer\<close>

lemma collect_Inr_elem: "collect f xs = Inr ys \<Longrightarrow> x \<in> set xs \<Longrightarrow> \<exists>zs. f x = Inr zs"
  by (induction xs arbitrary: ys) (auto split: sum.splits)

lemma collect_Inr_concat: "collect f xs = Inr ys \<Longrightarrow> ys = concat (map (\<lambda>x. projr (f x)) xs)"
  by (induction xs arbitrary: ys) (auto split: sum.splits)

lemma concat_map_single:
  "distinct (map k xs) \<Longrightarrow> x \<in> set xs \<Longrightarrow>
   (\<And>y. y \<in> set xs \<Longrightarrow> k y \<noteq> k x \<Longrightarrow> g y = []) \<Longrightarrow> concat (map g xs) = g x"
proof (induction xs)
  case Nil
  then show ?case by simp
next
  case (Cons a xs)
  show ?case
  proof (cases "a = x")
    case True
    have "g y = []" if "y \<in> set xs" for y
    proof -
      from Cons.prems(1) True have "k x \<notin> k ` set xs" by simp
      with that have "k y \<noteq> k x" by (metis imageI)
      with that Cons.prems(3) show ?thesis by simp
    qed
    then have "concat (map g xs) = []" by simp
    with True show ?thesis by simp
  next
    case False
    with Cons.prems have x: "x \<in> set xs" by simp
    from Cons.prems(1) have "k a \<notin> k ` set xs" by simp
    with x have "k a \<noteq> k x" by (metis imageI)
    with Cons.prems(3) have "g a = []" by simp
    moreover have "concat (map g xs) = g x"
      using Cons.IH Cons.prems x by simp
    ultimately show ?thesis by simp
  qed
qed

lemma filter_collect:
  "collect f xs = Inr ys \<Longrightarrow> filter P ys = concat (map (\<lambda>x. filter P (projr (f x))) xs)"
  by (induction xs arbitrary: ys) (auto split: sum.splits)

lemma db_has_get: "db_has db n \<longleftrightarrow> db_get db n \<noteq> None"
  by (simp add: db_has_def db_get_def map_of_eq_None_iff)

lemma check_dependency_fields:
  "check_dependency fp db dt e = Inr fs \<Longrightarrow> f \<in> set fs \<Longrightarrow>
   package f = Some (fst e) \<and> depType f = Some dt \<and> db_get db (fst e) \<noteq> None"
  by (auto simp: check_dependency_def infected_package_def known_target_def no_fields_def Let_def
      split: option.splits json.splits if_splits)

lemma check_dependency_type_fields:
  assumes "check_dependency_type fp db doc dt = Inr fs" and "f \<in> set fs"
  shows "depType f = Some dt \<and> (\<exists>k. package f = Some k \<and> db_get db k \<noteq> None)"
proof -
  from assms obtain deps where c: "collect (check_dependency fp db dt) (object_entries deps) = Inr fs"
    by (auto simp: check_dependency_type_def split: sum.splits option.splits if_splits)
  from collect_Inr_concat[OF c] assms(2)
  obtain e where e: "e \<in> set (object_entries deps)" "f \<in> set (projr (check_dependency fp db dt e))"
    by auto
  from collect_Inr_elem[OF c e(1)] obtain zs where "check_dependency fp db dt e = Inr zs"
    by blast
  with e(2) check_dependency_fields[of fp db dt e zs f] show ?thesis
    by auto
qed

lemma check_scripts_fields:
  assumes "check_scripts fp doc = Inr fs" and "f \<in> set fs"
  shows "package f = None"
proof -
  from assms obtain scripts where c: "collect (check_script fp scripts) SUSPICIOUS_SCRIPTS = Inr fs"
    by (auto simp: check_scripts_def split: sum.splits option.splits if_splits)
  from collect_Inr_concat[OF c] assms(2)
  obtain n where n: "n \<in> set SUSPICIOUS_SCRIPTS" "f \<in> set (projr (check_script fp scripts n))"
    by auto
  from collect_Inr_elem[OF c n(1)] obtain zs where "check_script fp scripts n = Inr zs"
    by blast
  with n(2) show ?thesis
    by (auto simp: check_script_def suspicious_script_def no_fields_def
        split: sum.splits option.splits if_splits)
qed

lemma distinct_DEPENDENCY_TYPES: "distinct DEPENDENCY_TYPES"
  by (simp add: DEPENDENCY_TYPES_def)

text \<open>
  When the two checks return. No error leaves \<open>checkPackageJson\<close> on a document other
  than \<open>null\<close> whose declared versions are strings and whose lifecycle scripts are
  strings; none leaves \<open>checkPackageLock\<close> on a document without a \<open>dependencies\<close> tree
  whose \<open>packages\<close> entries are not \<open>null\<close>.
\<close>

lemma collect_returns:
  "(\<And>x. x \<in> set xs \<Longrightarrow> \<exists>ys. f x = Inr ys) \<Longrightarrow> \<exists>zs. collect f xs = Inr zs"
proof (induction xs)
  case Nil
  then show ?case by simp
next
  case (Cons a xs)
  from Cons.prems[of a] obtain ys where ys: "f a = Inr ys"
    by auto
  from Cons.IH Cons.prems obtain zs where zs: "collect f xs = Inr zs"
    by auto
  from ys zs show ?case by simp
qed

lemma check_dependency_returns:
  "snd e = JStr s \<Longrightarrow> \<exists>ys. check_dependency fp db dt e = Inr ys"
  by (simp add: check_dependency_def Let_def split: option.splits)

lemma check_dependency_type_returns:
  assumes "doc \<noteq> JNull"
    and "\<And>deps e. get_prop doc dt = Inr (Some deps) \<Longrightarrow> truthy deps \<Longrightarrow>
           e \<in> set (object_entries deps) \<Longrightarrow> \<exists>s. snd e = JStr s"
  shows "\<exists>ys. check_dependency_type fp db doc dt = Inr ys"
proof -
  from assms(1) obtain p where p: "get_prop doc dt = Inr p"
    by (cases doc) auto
  show ?thesis
  proof (cases p)
    case None
    with p show ?thesis by (simp add: check_dependency_type_def)
  next
    case (Some deps)
    show ?thesis
    proof (cases "truthy deps")
      case False
      with p Some show ?thesis by (simp add: check_dependency_type_def)
    next
      case True
      have "\<exists>zs. collect (check_dependency fp db dt) (object_entries deps) = Inr zs"
      proof (rule collect_returns)
        fix e assume "e \<in> set (object_entries deps)"
        with assms(2) p Some True obtain s where "snd e = JStr s"
          by blast
        then show "\<exists>ys. check_dependency fp db dt e = Inr ys"
          by (rule check_dependency_returns)
      qed
      with p Some True show ?thesis by (simp add: check_dependency_type_def)
    qed
  qed
qed

lemma check_scripts_returns:
  assumes "doc \<noteq> JNull"
    and "\<And>scripts n sc. get_prop doc ''scripts'' = Inr (Some scripts) \<Longrightarrow> truthy scripts \<Longrightarrow>
           get_prop scripts n = Inr (Some sc) \<Longrightarrow> truthy sc \<Longrightarrow> \<exists>s. sc = JStr s"
  shows "\<exists>ys. check_scripts fp doc = Inr ys"
proof -
  from assms(1) obtain p where p: "get_prop doc ''scripts'' = Inr p"
    by (cases doc) auto
  show ?thesis
  proof (cases p)
    case None
    with p show ?thesis by (simp add: check_scripts_def)
  next
    case (Some scripts)
    show ?thesis
    proof (cases "truthy scripts")
      case False
      with p Some show ?thesis by (simp add: check_scripts_def)
    next
      case True
      then have nn: "scripts \<noteq> JNull" by auto
      have "\<exists>zs. collect (check_script fp scripts) SUSPICIOUS_SCRIPTS = Inr zs"
      proof (rule collect_returns)
        fix n
        from nn obtain q where q: "get_prop scripts n = Inr q"
          by (cases scripts) auto
        show "\<exists>ys. check_script fp scripts n = Inr ys"
        proof (cases q)
          case None
          with q show ?thesis by (simp add: check_script_def)
        next
          case (Some sc)
          show ?thesis
          proof (cases "truthy sc")
            case False
            with q Some show ?thesis by (simp add: check_script_def)
          next
            case t: True
            with assms(2) p \<open>p = Some scripts\<close> True q Some obtain s where "sc = JStr s"
              by blast
            with q Some show ?thesis by (simp add: check_script_def)
          qed
        qed
      qed
      with p Some True show ?thesis by (simp add: check_scripts_def)
    qed
  qed
qed

lemma checkPackageJson_returns:
  assumes "doc \<noteq> JNull"
    and "\<And>dt deps e. dt \<in> set DEPENDENCY_TYPES \<Longrightarrow> get_prop doc dt = Inr (Some deps) \<Longrightarrow>
           truthy deps \<Longrightarrow> e \<in> set (object_entries deps) \<Longrightarrow> \<exists>s. snd e = JStr s"
    and "\<And>scripts n sc. get_prop doc ''scripts'' = Inr (Some scripts) \<Longrightarrow> truthy scripts \<Longrightarrow>
           get_prop scripts n = Inr (Some sc) \<Longrightarrow> truthy sc \<Longrightarrow> \<exists>s. sc = JStr s"
  shows "\<exists>fs. checkPackageJson fp db verbose (Inr doc) = Inr fs"
proof -
  have "\<exists>zs. collect (check_dependency_type fp db doc) DEPENDENCY_TYPES = Inr zs"
  proof (rule collect_returns)
    fix dt assume "dt \<in> set DEPENDENCY_TYPES"
    with assms(1,2) show "\<exists>ys. check_dependency_type fp db doc dt = Inr ys"
      by (intro check_dependency_type_returns) blast+
  qed
  moreover from assms(1,3) have "\<exists>ys. check_scripts fp doc = Inr ys"
    by (intro check_scripts_returns) blast+
  ultimately show ?thesis
    by (auto simp: checkPackageJson_def)
qed

lemma check_locked_returns: "info \<noteq> JNull \<Longrightarrow> \<exists>ys. check_locked fp db name info = Inr ys"
  by (cases info) (auto simp: check_locked_def split: option.splits json.splits)

lemma checkPackageLock_returns:
  assumes "get_prop doc ''packages'' = Inr (Some packages)" and "truthy packages"
    and "\<And>e. e \<in> set (object_entries packages) \<Longrightarrow> snd e \<noteq> JNull"
    and "get_prop doc ''dependencies'' = Inr None"
  shows "\<exists>fs. checkPackageLock fp db verbose (Inr doc) = Inr fs"
proof -
  have "\<exists>zs. collect (check_packages_entry fp db) (object_entries packages) = Inr zs"
  proof (rule collect_returns)
    fix e assume "e \<in> set (object_entries packages)"
    with assms(3) have "snd e \<noteq> JNull" by simp
    then show "\<exists>ys. check_packages_entry fp db e = Inr ys"
      by (auto simp: check_packages_entry_def intro: check_locked_returns)
  qed
  with assms(1,2,4) show ?thesis
    by (auto simp: checkPackageLock_def)
qed

lemma replace_leading: "p \<noteq> [] \<Longrightarrow> replace (p @ r) p [] = r"
  by (cases p) simp_all

lemma split_from_absent:
  "sep \<noteq> [] \<Longrightarrow> \<not> includes_str s sep \<Longrightarrow> split_from sep cur s = [rev cur @ s]"
  by (induction s arbitrary: cur) auto

lemma pkgName_of_leading:
  "pkgName_of (''node_modules/'' @ rest) = last (split rest ''node_modules/'')"
  unfolding pkgName_of_def by (subst replace_leading) simp_all

lemma pkgName_of_plain:
  "\<not> includes_str name ''node_modules/'' \<Longrightarrow> pkgName_of (''node_modules/'' @ name) = name"
  by (simp only: pkgName_of_leading split_def) (simp add: split_from_absent)

lemma check_locked_fields:
  "check_locked fp db name info = Inr ys \<Longrightarrow> f \<in> set ys \<Longrightarrow> package f = Some name"
  by (auto simp: check_locked_def infected_locked_package_def no_fields_def
      split: option.splits sum.splits json.splits if_splits)

lemma check_packages_entry_fields:
  "check_packages_entry fp db e = Inr ys \<Longrightarrow> f \<in> set ys \<Longrightarrow>
   package f = Some (pkgName_of (fst e))"
  by (auto simp: check_packages_entry_def dest: check_locked_fields split: if_splits)

text \<open>
  A key that does not begin with \<open>node_modules/\<close>, as the lockfile of a workspace has
  them: \<open>replace\<close> removes the first occurrence, which here is the only one, so nothing
  is left to split at and the whole remaining path is taken for the name.
\<close>

lemma pkgName_of_workspace_key:
  "pkgName_of ''packages/app/node_modules/evil'' = ''packages/app/evil''"
  by (simp add: pkgName_of_def split_def)

section \<open>Facts about the loader\<close>

lemma includes_str_set: "includes_str s p \<Longrightarrow> set p \<subseteq> set s"
proof (induction s)
  case Nil
  then show ?case by simp
next
  case (Cons a s)
  from Cons.prems have "prefix p (a # s) \<or> includes_str s p"
    by simp
  then show ?case
  proof
    assume "prefix p (a # s)"
    then show ?thesis by (rule set_mono_prefix)
  next
    assume "includes_str s p"
    with Cons.IH show ?thesis by auto
  qed
qed

lemma includes_str_single: "includes_str s [c] \<longleftrightarrow> c \<in> set s"
  by (induction s) auto

lemma includes_str_skip:
  "c \<notin> set a \<Longrightarrow> includes_str (a @ r) (c # q) = includes_str r (c # q)"
  by (induction a) auto

lemma prefix_includes_str: "prefix p s \<Longrightarrow> includes_str s p"
  by (cases s) auto

lemma prefix_stop: "d \<notin> set p \<Longrightarrow> prefix p (n @ d # r) \<Longrightarrow> prefix p n"
proof -
  assume d: "d \<notin> set p" and p: "prefix p (n @ d # r)"
  from p have "prefix p n \<or> (\<exists>us. p = n @ us \<and> prefix us (d # r))"
    by (simp add: prefix_append)
  then show "prefix p n"
  proof
    assume "prefix p n" then show ?thesis .
  next
    assume "\<exists>us. p = n @ us \<and> prefix us (d # r)"
    then obtain us where us: "p = n @ us" "prefix us (d # r)"
      by blast
    show ?thesis
    proof (cases us)
      case Nil
      with us show ?thesis by simp
    next
      case (Cons u us')
      with us(2) have "u = d" by simp
      with Cons us(1) d show ?thesis by simp
    qed
  qed
qed

lemma trim_ends:
  assumes "t \<noteq> []" "\<not> is_space (hd t)" "\<not> is_space (last t)"
  shows "trim t = t"
proof -
  from assms have "dropWhile is_space t = t"
    by (cases t) auto
  moreover from assms have "dropWhile is_space (rev t) = rev t"
    by (cases "rev t") (auto simp: hd_rev)
  ultimately show ?thesis
    by (simp add: trim_def)
qed

lemma field_ok_ends: "field_ok t \<Longrightarrow> t \<noteq> [] \<and> \<not> is_space (hd t) \<and> \<not> is_space (last t)"
  by (auto simp: field_ok_def)

lemma trim_field: "field_ok t \<Longrightarrow> trim t = t"
  by (simp add: trim_ends field_ok_ends)

lemma trim_padded: "field_ok t \<Longrightarrow> trim (CHR '' '' # t @ '' '') = t"
proof -
  assume ok: "field_ok t"
  then obtain c cs where t: "t = c # cs" and c: "\<not> is_space c"
    by (cases t) (auto simp: field_ok_def)
  from ok have l: "\<not> is_space (last t)" "t \<noteq> []"
    by (simp_all add: field_ok_ends)
  have sp: "is_space CHR '' ''"
    by (simp add: is_space_def)
  have "dropWhile is_space (CHR '' '' # t @ '' '') = t @ '' ''"
    using sp c t by simp
  moreover have "dropWhile is_space (rev (t @ '' '')) = rev t"
  proof -
    have "rev (t @ '' '') = CHR '' '' # rev t" by simp
    moreover from l have "dropWhile is_space (rev t) = rev t"
      by (cases "rev t") (auto simp: hd_rev)
    ultimately show ?thesis using sp by simp
  qed
  ultimately show ?thesis
    by (simp add: trim_def)
qed

lemma trim_Nil: "trim [] = []"
  by (simp add: trim_def)

lemma split_join_lines:
  "ls \<noteq> [] \<Longrightarrow> (\<forall>l \<in> set ls. newline \<notin> set l) \<Longrightarrow> split (join_lines ls) [newline] = ls"
proof (induction ls rule: join_lines.induct)
  case 1
  then show ?case by simp
next
  case (2 l)
  then show ?case by (simp add: split_char_absent)
next
  case (3 l k ls)
  then show ?case by (simp add: split_char_append)
qed

lemma field_ok_no_bar: "field_ok t \<Longrightarrow> CHR ''|'' \<notin> set t"
  by (auto simp: field_ok_def)

lemma field_ok_no_tab: "field_ok t \<Longrightarrow> tab \<notin> set t"
  by (auto simp: field_ok_def is_space_def tab_def)

lemma field_ok_no_newline: "field_ok t \<Longrightarrow> newline \<notin> set t"
  by (auto simp: field_ok_def is_space_def newline_def)

lemma load_line_empty: "load_line (b, db) [] = (b, db)"
  by (simp add: load_line_def startsWith_def)

lemma db_has_addPackage: "db_has (addPackage db n v) k \<longleftrightarrow> k = n \<or> db_has db k"
proof -
  have "map fst (map (\<lambda>entry. if fst entry = n
            then (fst entry, if v \<in> set (snd entry) then snd entry else snd entry @ [v])
            else entry) xs) = map fst xs" for xs
    by (induction xs) auto
  then show ?thesis
    by (auto simp: addPackage_def db_has_def Let_def)
qed

lemma map_of_update_key:
  "map_of (map (\<lambda>entry. if fst entry = n
        then (fst entry, if v \<in> set (snd entry) then snd entry else snd entry @ [v])
        else entry) xs) k
   = (if k = n then map_option (\<lambda>vs. if v \<in> set vs then vs else vs @ [v]) (map_of xs k)
      else map_of xs k)"
  by (induction xs) auto

lemma versions_of_addPackage:
  "versions_of (addPackage db n v) k
   = (if k = n then insert v (versions_of db k) else versions_of db k)"
proof (cases "db_has db n")
  case True
  then obtain vs where "map_of db n = Some vs"
    by (auto simp: db_has_def dest!: weak_map_of_SomeI)
  with True show ?thesis
    by (auto simp: addPackage_def versions_of_def db_get_def Let_def map_of_update_key
        split: option.splits)
next
  case False
  then have "map_of db n = None"
    by (simp add: db_has_def map_of_eq_None_iff)
  with False show ?thesis
    by (auto simp: addPackage_def versions_of_def db_get_def Let_def map_of_update_key
        map_add_def split: option.splits)
qed

lemma db_has_foldl:
  "db_has (foldl add_entry db es) k \<longleftrightarrow> db_has db k \<or> k \<in> fst ` set es"
  by (induction es arbitrary: db) (auto simp: db_has_addPackage)

lemma versions_of_foldl:
  "versions_of (foldl add_entry db es) k = versions_of db k \<union> {v. (k, v) \<in> set es}"
  by (induction es arbitrary: db) (auto simp: versions_of_addPackage split: if_splits)

lemma split_at_first:
  assumes "c \<in> set s"
  shows "\<exists>others. split s [c]
     = takeWhile (\<lambda>x. x \<noteq> c) s
       # takeWhile (\<lambda>x. x \<noteq> c) (tl (dropWhile (\<lambda>x. x \<noteq> c) s)) # others"
proof -
  from assms obtain a b where s: "s = a @ c # b" and a: "c \<notin> set a"
    by (meson split_list_first)
  have tw: "takeWhile (\<lambda>x. x \<noteq> c) (a @ c # b) = a"
    using a by (induction a) auto
  have dw: "dropWhile (\<lambda>x. x \<noteq> c) (a @ c # b) = c # b"
    using a by (induction a) auto
  have ne: "split b [c] \<noteq> []"
    by (simp add: split_def split_from_nonempty)
  then obtain p ps where pps: "split b [c] = p # ps"
    by (cases "split b [c]") auto
  with hd_split_char[of b c] have "p = takeWhile (\<lambda>x. x \<noteq> c) b"
    by simp
  with a pps show ?thesis
    unfolding s tw dw by (simp add: split_char_append)
qed

text \<open>
  The lines of a well-formed document, one at a time: a table row enters its entry and
  keeps the reader in table mode, a marker line only switches to table mode, a skipped
  line changes nothing, a tab-separated row enters its entry in either mode.
\<close>

lemma no_package_prefix:
  "\<not> prefix ''Package'' c \<Longrightarrow> \<not> prefix ''Package'' (c @ CHR '' '' # r)"
  using prefix_stop[of "CHR '' ''" "''Package''" c r] by auto

lemma cells_no_marker:
  assumes "\<forall>c \<in> set cs. CHR ''|'' \<notin> set c \<and> \<not> prefix ''Package'' c"
  shows "\<not> includes_str (CHR ''|'' # concat (map (\<lambda>c. CHR '' '' # c @ '' |'') cs)) ''| Package''"
    and "\<not> includes_str (CHR ''|'' # concat (map (\<lambda>c. CHR '' '' # c @ '' |'') cs)) ''|---''"
  using assms by (induction cs) (simp_all add: includes_str_skip no_package_prefix)

lemma split_cells:
  assumes "\<forall>c \<in> set cs. CHR ''|'' \<notin> set c"
  shows "split (concat (map (\<lambda>c. CHR '' '' # c @ '' |'') cs)) ''|''
     = map (\<lambda>c. CHR '' '' # c @ '' '') cs @ [[]]"
  using assms
proof (induction cs)
  case Nil
  then show ?case by (simp add: split_def)
next
  case (Cons c cs)
  let ?rest = "concat (map (\<lambda>c. CHR '' '' # c @ '' |'') cs)"
  have shape: "concat (map (\<lambda>c. CHR '' '' # c @ '' |'') (c # cs))
      = (CHR '' '' # c @ '' '') @ CHR ''|'' # ?rest"
    by simp
  have "CHR ''|'' \<notin> set (CHR '' '' # c @ '' '')"
    using Cons.prems by simp
  then have "split ((CHR '' '' # c @ '' '') @ CHR ''|'' # ?rest) ''|''
      = (CHR '' '' # c @ '' '') # split ?rest ''|''"
    by (rule split_char_append)
  then have "split (concat (map (\<lambda>c. CHR '' '' # c @ '' |'') (c # cs))) ''|''
      = (CHR '' '' # c @ '' '') # split ?rest ''|''"
    by (simp only: shape)
  with Cons show ?case by simp
qed

lemma split_table_row:
  assumes "\<forall>c \<in> set (n # v # cells). CHR ''|'' \<notin> set c"
  shows "split (table_row (n, v) cells) ''|''
     = [] # (CHR '' '' # n @ '' '') # (CHR '' '' # v @ '' '')
         # map (\<lambda>c. CHR '' '' # c @ '' '') cells @ [[]]"
proof -
  let ?rest = "concat (map (\<lambda>c. CHR '' '' # c @ '' |'') (n # v # cells))"
  have shape: "table_row (n, v) cells = [] @ CHR ''|'' # ?rest"
    by (simp add: table_row_def)
  have "CHR ''|'' \<notin> set []"
    by simp
  then have "split ([] @ CHR ''|'' # ?rest) ''|'' = [] # split ?rest ''|''"
    by (rule split_char_append)
  then have "split (table_row (n, v) cells) ''|'' = [] # split ?rest ''|''"
    by (simp only: shape)
  with split_cells[OF assms] show ?thesis by simp
qed

lemma load_line_table_row:
  assumes "entry_ok (n, v)" and "list_all cell_ok cells"
  shows "load_line (True, db) (table_row (n, v) cells) = (True, addPackage db n v)"
proof -
  from assms(1) have ok: "field_ok n" "field_ok v" "\<not> includes_str n ''Package''"
    "\<not> prefix ''Package'' v"
    by (simp_all add: entry_ok_def)
  have ne: "n \<noteq> []" "v \<noteq> []"
    using ok by (simp_all add: field_ok_def)
  have np: "\<not> prefix ''Package'' n"
    using ok(3) by (auto dest: prefix_includes_str)
  have bars: "\<forall>c \<in> set (n # v # cells). CHR ''|'' \<notin> set c"
    using ok(1,2) assms(2) by (auto simp: field_ok_no_bar list_all_iff cell_ok_def)
  have pre: "\<forall>c \<in> set (n # v # cells). CHR ''|'' \<notin> set c \<and> \<not> prefix ''Package'' c"
    using bars np ok(4) assms(2) by (auto simp: list_all_iff cell_ok_def)
  have row: "table_row (n, v) cells
      = CHR ''|'' # concat (map (\<lambda>c. CHR '' '' # c @ '' |'') (n # v # cells))"
    by (simp add: table_row_def)
  have h: "\<not> includes_str (table_row (n, v) cells) ''| Package''"
    "\<not> includes_str (table_row (n, v) cells) ''|---''"
    unfolding row using cells_no_marker[OF pre] by blast+
  have sw: "startsWith (table_row (n, v) cells) ''|''"
    by (simp add: startsWith_def table_row_def)
  have "filter (\<lambda>p. p \<noteq> []) (map trim (split (table_row (n, v) cells) ''|''))
      = n # v # filter (\<lambda>p. p \<noteq> [])
                  (map trim (map (\<lambda>c. CHR '' '' # c @ '' '') cells @ [[]]))"
    using ok ne by (simp add: split_table_row[OF bars] trim_Nil trim_padded)
  with h sw ok(3) ne show ?thesis
    by (simp add: load_line_def)
qed

lemma load_line_marker: "marker_ok h \<Longrightarrow> load_line (b, db) h = (True, db)"
  by (auto simp: load_line_def marker_ok_def)

lemma load_line_skipped: "skipped_ok l \<Longrightarrow> load_line (b, db) l = (b, db)"
  by (simp add: load_line_def skipped_ok_def includes_str_single)

lemma trim_keeps_front:
  assumes "s \<noteq> []" "\<not> is_space (hd s)" "\<not> is_space (last s)"
  shows "trim (s @ w) = s @ rev (dropWhile is_space (rev w))"
proof -
  from assms have front: "dropWhile is_space (s @ w) = s @ w"
    by (cases s) auto
  from assms have rear: "dropWhile is_space (rev s) = rev s"
    by (cases "rev s") (auto simp: hd_rev)
  have "dropWhile is_space (rev w @ rev s) = dropWhile is_space (rev w) @ rev s"
  proof (cases "\<forall>x \<in> set (rev w). is_space x")
    case True
    then have "dropWhile is_space (rev w) = []"
      by simp
    moreover from True have "dropWhile is_space (rev w @ rev s) = dropWhile is_space (rev s)"
      by (intro dropWhile_append2) auto
    ultimately show ?thesis using rear by simp
  next
    case False
    then show ?thesis
      by (auto simp: dropWhile_append1)
  qed
  with front show ?thesis
    by (simp add: trim_def)
qed

lemma columns_start:
  "concat (map (\<lambda>c. tab # c) cols) = [] \<or> (\<exists>r. concat (map (\<lambda>c. tab # c) cols) = tab # r)"
  by (cases cols) auto

lemma trimmed_tail_start:
  assumes "w = [] \<or> (\<exists>r. w = tab # r)"
  shows "rev (dropWhile is_space (rev w)) = []
     \<or> (\<exists>r. rev (dropWhile is_space (rev w)) = tab # r)"
proof -
  have "suffix (dropWhile is_space (rev w)) (rev w)"
    by (rule suffix_dropWhile)
  then have "prefix (rev (dropWhile is_space (rev w))) w"
    by (simp add: suffix_to_prefix)
  with assms show ?thesis
    by (cases "rev (dropWhile is_space (rev w))") (auto simp: prefix_def)
qed

lemma load_line_tsv_row:
  assumes "entry_ok (n, v)" and "list_all column_ok cols"
  shows "load_line (b, db) (tsv_row (n, v) cols) = (b, addPackage db n v)"
proof -
  from assms(1) have ok: "field_ok n" "field_ok v"
    by (simp_all add: entry_ok_def)
  let ?w = "concat (map ((#) tab) cols)"
  let ?l = "n @ tab # v @ ?w"
  let ?w' = "rev (dropWhile is_space (rev ?w))"
  have l: "tsv_row (n, v) cols = ?l"
    by (simp add: tsv_row_def)
  have ne: "n \<noteq> []" "v \<noteq> []"
    using ok by (simp_all add: field_ok_def)
  have tb: "tab \<noteq> CHR ''|''"
    by (simp add: tab_def)
  have "CHR ''|'' \<notin> set ?w"
    using assms(2) tb by (auto simp: list_all_iff column_ok_def)
  then have nobar: "CHR ''|'' \<notin> set ?l"
    using ok tb by (simp add: field_ok_no_bar)
  have h1: "\<not> includes_str ?l ''| Package''" "\<not> includes_str ?l ''|---''"
    using nobar by (auto dest!: includes_str_set)
  have h2: "\<not> startsWith ?l ''|''"
    using ok(1) by (cases n) (auto simp: startsWith_def field_ok_def)
  have h3: "includes_str ?l [tab]"
    by (simp add: includes_str_single)
  have "trim ((n @ tab # v) @ ?w) = (n @ tab # v) @ ?w'"
    using ok by (intro trim_keeps_front) (auto simp: field_ok_def hd_append)
  then have tr: "trim ?l = n @ tab # v @ ?w'"
    by simp
  have "\<exists>others. split (n @ tab # v @ ?w') [tab] = n # v # others"
  proof -
    from trimmed_tail_start[OF columns_start[of cols]]
    consider "?w' = []" | r where "?w' = tab # r"
      by blast
    then show ?thesis
    proof cases
      case 1
      show ?thesis
        unfolding 1 using ok
        by (simp add: split_char_append split_char_absent field_ok_no_tab)
    next
      case 2
      show ?thesis
        unfolding 2 using ok
        by (simp add: split_char_append field_ok_no_tab)
    qed
  qed
  then obtain others where sp: "split (trim ?l) [tab] = n # v # others"
    unfolding tr by blast
  have t: "trim n = n" "trim v = v"
    using ok by (simp_all add: trim_field)
  show ?thesis
    unfolding l using h1 h2 h3 ne
    by (simp add: load_line_def sp t)
qed

lemma table_row_no_newline:
  assumes "entry_ok (n, v)" and "list_all cell_ok cells"
  shows "newline \<notin> set (table_row (n, v) cells)"
proof -
  have "newline \<noteq> CHR ''|''" "newline \<noteq> CHR '' ''"
    by (simp_all add: newline_def)
  moreover from assms have "newline \<notin> set n" "newline \<notin> set v" "\<forall>c \<in> set cells. newline \<notin> set c"
    by (auto simp: entry_ok_def field_ok_no_newline list_all_iff cell_ok_def)
  ultimately show ?thesis
    by (auto simp: table_row_def)
qed

lemma tsv_row_no_newline:
  assumes "entry_ok (n, v)" and "list_all column_ok cols"
  shows "newline \<notin> set (tsv_row (n, v) cols)"
proof -
  have "newline \<noteq> tab"
    by (simp add: newline_def tab_def)
  moreover from assms have "newline \<notin> set n" "newline \<notin> set v" "\<forall>c \<in> set cols. newline \<notin> set c"
    by (auto simp: entry_ok_def field_ok_no_newline list_all_iff column_ok_def)
  ultimately show ?thesis
    by (auto simp: tsv_row_def)
qed

text \<open>Whole documents: the reader folds over the lines that were rendered.\<close>

lemma table_line_no_newline: "table_line_ok l \<Longrightarrow> newline \<notin> set (table_line l)"
proof (cases l)
  case (Entry e cells)
  assume "table_line_ok l"
  with Entry show ?thesis
    by (cases e) (simp add: table_row_no_newline)
qed (simp_all add: marker_ok_def skipped_ok_def)

lemma tsv_line_no_newline: "tsv_line_ok l \<Longrightarrow> newline \<notin> set (tsv_line l)"
proof (cases l)
  case (Entry e cols)
  assume "tsv_line_ok l"
  with Entry show ?thesis
    by (cases e) (simp add: tsv_row_no_newline)
qed (simp_all add: skipped_ok_def)

lemma foldl_table_body:
  "list_all table_line_ok ls \<Longrightarrow>
   foldl load_line (True, db) (map table_line ls) = (True, foldl add_entry db (entries_of ls))"
proof (induction ls arbitrary: db)
  case Nil
  then show ?case by simp
next
  case (Cons l ls)
  show ?case
  proof (cases l)
    case (Marker h)
    with Cons show ?thesis by (simp add: load_line_marker)
  next
    case (Skipped k)
    with Cons show ?thesis by (simp add: load_line_skipped)
  next
    case (Entry e cells)
    with Cons show ?thesis by (cases e) (simp add: load_line_table_row)
  qed
qed

lemma foldl_table:
  "table_ok ls \<Longrightarrow>
   foldl load_line (False, db) (map table_line ls) = (True, foldl add_entry db (entries_of ls))"
proof (induction ls rule: table_ok.induct)
  case (2 l ls)
  then show ?case by (simp add: load_line_skipped)
next
  case (3 h ls)
  then show ?case by (simp add: load_line_marker foldl_table_body)
qed simp_all

lemma foldl_tsv:
  "list_all tsv_line_ok ls \<Longrightarrow>
   foldl load_line (b, db) (map tsv_line ls) = (b, foldl add_entry db (entries_of ls))"
proof (induction ls arbitrary: db)
  case Nil
  then show ?case by simp
next
  case (Cons l ls)
  show ?case
  proof (cases l)
    case (Marker h)
    with Cons show ?thesis by simp
  next
    case (Skipped k)
    with Cons show ?thesis by (simp add: load_line_skipped)
  next
    case (Entry e cols)
    with Cons show ?thesis by (cases e) (simp add: load_line_tsv_row)
  qed
qed

lemma table_ok_lines: "table_ok ls \<Longrightarrow> ls \<noteq> [] \<and> list_all table_line_ok ls"
  by (induction ls rule: table_ok.induct) simp_all

lemma load_render_table:
  assumes "table_ok doc"
  shows "loadInfectedPackages (Inr (render_table doc)) = Inr (foldl add_entry [] (entries_of doc))"
proof -
  from table_ok_lines[OF assms] have ne: "map table_line doc \<noteq> []"
    and nl: "\<forall>l \<in> set (map table_line doc). newline \<notin> set l"
    by (auto simp: list_all_iff dest: table_line_no_newline)
  from ne nl have "split (join_lines (map table_line doc)) [newline] = map table_line doc"
    by (rule split_join_lines)
  then show ?thesis
    using assms by (simp add: loadInfectedPackages_def render_table_def foldl_table)
qed

lemma load_render_tsv:
  assumes "tsv_ok doc"
  shows "loadInfectedPackages (Inr (render_tsv doc)) = Inr (foldl add_entry [] (entries_of doc))"
proof (cases doc)
  case Nil
  then show ?thesis
    by (simp add: loadInfectedPackages_def render_tsv_def split_def load_line_empty)
next
  case (Cons l ls)
  from assms have ok: "list_all tsv_line_ok doc"
    by (simp add: tsv_ok_def)
  then have "\<forall>l \<in> set (map tsv_line doc). newline \<notin> set l"
    by (auto simp: list_all_iff dest: tsv_line_no_newline)
  moreover have "map tsv_line doc \<noteq> []"
    using Cons by simp
  ultimately have "split (join_lines (map tsv_line doc)) [newline] = map tsv_line doc"
    by (intro split_join_lines)
  then show ?thesis
    using ok by (simp add: loadInfectedPackages_def render_tsv_def foldl_tsv)
qed

section \<open>Claims\<close>

subsection \<open>C3: reduction of a version specifier\<close>

text \<open>
  C3, as amended. \<open>extractVersion\<close> is idempotent. It removes the leading run of the
  operator characters \<open>^ ~ > = <\<close> and returns what stands before the first space
  character (U+0020) of the rest; no other white space ends the result, and a space right
  after the operators gives the empty string. The five documented reductions hold.
\<close>

theorem extractVersion_idempotent_space:
  "extractVersion (extractVersion s) = extractVersion s
   \<and> extractVersion s = takeWhile (\<lambda>c. c \<noteq> CHR '' '') (dropWhile is_operator s)
   \<and> extractVersion (CHR 0x5E # ''1.2.3'') = ''1.2.3''
   \<and> extractVersion ''~1.2.3'' = ''1.2.3''
   \<and> extractVersion ''>=1.2.3'' = ''1.2.3''
   \<and> extractVersion ''1.2.3'' = ''1.2.3''
   \<and> extractVersion ''>=1.0.0 <2.0.0'' = ''1.0.0''"
proof -
  have idem: "extractVersion (extractVersion s) = extractVersion s"
  proof (cases "extractVersion s = []")
    case True
    then show ?thesis
      by (simp add: extractVersion_eq)
  next
    case False
    then have "\<not> is_operator (hd (extractVersion s))"
      by (rule extractVersion_no_operator_front)
    with False have "dropWhile is_operator (extractVersion s) = extractVersion s"
      by (cases "extractVersion s") simp_all
    then have "extractVersion (extractVersion s)
        = takeWhile (\<lambda>c. c \<noteq> CHR '' '') (extractVersion s)"
      by (simp add: extractVersion_eq)
    also have "\<dots> = extractVersion s"
      by (simp add: extractVersion_eq)
    finally show ?thesis .
  qed
  have ex: "extractVersion (CHR 0x5E # ''1.2.3'') = ''1.2.3''"
    "extractVersion ''~1.2.3'' = ''1.2.3''"
    "extractVersion ''>=1.2.3'' = ''1.2.3''"
    "extractVersion ''1.2.3'' = ''1.2.3''"
    "extractVersion ''>=1.0.0 <2.0.0'' = ''1.0.0''"
    by (simp_all add: extractVersion_eq is_operator_def)
  from idem ex show ?thesis
    by (simp add: extractVersion_eq)
qed

text \<open>
  C3 as stated fails where the white space is not a space: a tab does not end the
  result, although both readings of "first whitespace-delimited token" stop at it.
\<close>

theorem extractVersion_tab_counterexample:
  "extractVersion (''1.0.0'' @ [CHR 0x09] @ ''<2.0.0'') = ''1.0.0'' @ [CHR 0x09] @ ''<2.0.0''
   \<and> first_ws_piece (dropWhile is_operator (''1.0.0'' @ [CHR 0x09] @ ''<2.0.0'')) = ''1.0.0''
   \<and> first_ws_token (dropWhile is_operator (''1.0.0'' @ [CHR 0x09] @ ''<2.0.0'')) = ''1.0.0''
   \<and> extractVersion (''1.0.0'' @ [CHR 0x09] @ ''<2.0.0'') \<noteq> ''1.0.0''"
  by (simp add: extractVersion_eq is_operator_def first_ws_piece_def first_ws_token_def
      is_space_def)

subsection \<open>C1: a bare file name matches by equality only\<close>

text \<open>
  C1. For an artifact without a path separator, the test of a scanned file entry reports
  the artifact exactly when the entry's name equals it; and over a whole tree, the scan
  reports the artifact at a path exactly when a file with that very name is reached there
  (through readable directories, none of them named \<open>node_modules\<close>).
\<close>

theorem basename_rule_exact:
  assumes "a \<in> set MALICIOUS_ARTIFACTS" and "\<not> includes_str a ''/''"
  shows "((\<lparr>artifact = a, artifact_path = fp\<rparr> \<in> set (check_file fp name)) \<longleftrightarrow> name = a)
    \<and> ((\<lparr>artifact = a, artifact_path = p\<rparr> \<in> set (findMaliciousArtifacts dir t)) \<longleftrightarrow>
        (\<exists>ns. file_at t ns \<and> ''node_modules'' \<notin> set ns \<and> last ns = a
              \<and> p = foldl path_join dir ns))"
proof -
  let ?r = "\<lparr>artifact = a, artifact_path = p\<rparr>"
  have entry: "\<And>fp name. (\<lparr>artifact = a, artifact_path = fp\<rparr> \<in> set (check_file fp name))
      \<longleftrightarrow> name = a"
    using assms by (rule check_file_basename)
  have "?r \<in> set (findMaliciousArtifacts dir t) \<longleftrightarrow>
        (\<exists>ns. file_at t ns \<and> ''node_modules'' \<notin> set ns \<and> last ns = a
              \<and> p = foldl path_join dir ns)" (is "?L \<longleftrightarrow> ?R")
  proof
    assume ?L
    then obtain ns where ns: "file_at t ns" "''node_modules'' \<notin> set ns"
      "?r \<in> set (check_file (foldl path_join dir ns) (last ns))"
      unfolding findMaliciousArtifacts_def by (blast dest: scan_artifacts_sound)
    from ns(3) have p: "p = foldl path_join dir ns"
      by (auto dest: check_file_path)
    with ns(3) entry have "last ns = a"
      by simp
    with ns p show ?R by blast
  next
    assume ?R
    then obtain ns where ns: "file_at t ns" "''node_modules'' \<notin> set ns" "last ns = a"
      "p = foldl path_join dir ns"
      by blast
    from ns(3,4) entry have "?r \<in> set (check_file (foldl path_join dir ns) (last ns))"
      by simp
    with scan_artifacts_complete[OF ns(1,2)] show ?L
      unfolding findMaliciousArtifacts_def by blast
  qed
  with entry show ?thesis by simp
qed

theorem basename_rule_exact_witness:
  "''environment.json'' \<in> set MALICIOUS_ARTIFACTS
   \<and> \<not> includes_str ''environment.json'' ''/''
   \<and> \<lparr>artifact = ''environment.json'', artifact_path = ''/r/Sandbox.postman_environment.json''\<rparr>
       \<notin> set (check_file ''/r/Sandbox.postman_environment.json''
                  ''Sandbox.postman_environment.json'')
   \<and> \<lparr>artifact = ''environment.json'', artifact_path = ''/r/my-config.environment.json''\<rparr>
       \<notin> set (check_file ''/r/my-config.environment.json'' ''my-config.environment.json'')
   \<and> \<lparr>artifact = ''environment.json'', artifact_path = ''/r/a/environment.json''\<rparr>
       \<in> set (findMaliciousArtifacts ''/r'' (Dir [(''a'', Dir [(''environment.json'', File)])]))"
proof -
  have a: "''environment.json'' \<in> set MALICIOUS_ARTIFACTS"
    by (simp add: MALICIOUS_ARTIFACTS_def)
  have b: "\<not> includes_str ''environment.json'' ''/''"
    by simp
  have ns: "file_at (Dir [(''a'', Dir [(''environment.json'', File)])]) [''a'', ''environment.json'']
     \<and> ''node_modules'' \<notin> set [''a'', ''environment.json'']
     \<and> last [''a'', ''environment.json''] = ''environment.json''
     \<and> ''/r/a/environment.json'' = foldl path_join ''/r'' [''a'', ''environment.json'']"
    by code_simp
  show ?thesis
    using a b ns
      basename_rule_exact[OF a b, of "''/r/Sandbox.postman_environment.json''"
        "''Sandbox.postman_environment.json''" "''/r/a/environment.json''" "''/r''"
        "Dir [(''a'', Dir [(''environment.json'', File)])]"]
      basename_rule_exact[OF a b, of "''/r/my-config.environment.json''"
        "''my-config.environment.json''" "''/r/a/environment.json''" "''/r''"
        "Dir [(''a'', Dir [(''environment.json'', File)])]"]
    by blast
qed

subsection \<open>C9: nothing under \<open>node_modules\<close> is reported by the artifact scan\<close>

text \<open>
  C9. Every result of \<open>findMaliciousArtifacts\<close> is a file reached from the scanned root
  by entry names none of which is \<open>node_modules\<close>; the results are the same when every
  \<open>node_modules\<close> entry is removed from the tree; and an entry named \<open>node_modules\<close>,
  whatever it holds, gives no result.
\<close>

theorem artifacts_skip_node_modules:
  "(\<forall>r \<in> set (findMaliciousArtifacts dir t).
      \<exists>ns. file_at t ns \<and> ''node_modules'' \<notin> set ns
         \<and> artifact_path r = foldl path_join dir ns)
   \<and> findMaliciousArtifacts dir (prune t) = findMaliciousArtifacts dir t
   \<and> findMaliciousArtifacts dir (Dir (es @ (''node_modules'', u) # es'))
       = findMaliciousArtifacts dir (Dir (es @ es'))"
proof -
  have "\<exists>ns. file_at t ns \<and> ''node_modules'' \<notin> set ns
         \<and> artifact_path r = foldl path_join dir ns"
    if "r \<in> set (findMaliciousArtifacts dir t)" for r
    using scan_artifacts_sound[of r dir t] that
    unfolding findMaliciousArtifacts_def by (blast dest: check_file_path)
  then show ?thesis
    by (simp add: findMaliciousArtifacts_def scan_artifacts_prune Let_def)
qed

theorem artifacts_skip_node_modules_witness:
  "findMaliciousArtifacts ''/r''
     (Dir [(''node_modules'', Dir [(''some-pkg'', Dir [(''setup_bun.js'', File)])]),
           (''src'', Dir [(''cloud.json'', File)])])
   = [\<lparr>artifact = ''cloud.json'', artifact_path = ''/r/src/cloud.json''\<rparr>]
   \<and> (\<exists>ns. file_at (Dir [(''node_modules'', Dir [(''some-pkg'', Dir [(''setup_bun.js'', File)])]),
           (''src'', Dir [(''cloud.json'', File)])]) ns
         \<and> ''node_modules'' \<notin> set ns
         \<and> ''/r/src/cloud.json'' = foldl path_join ''/r'' ns)"
proof -
  let ?t = "Dir [(''node_modules'', Dir [(''some-pkg'', Dir [(''setup_bun.js'', File)])]),
           (''src'', Dir [(''cloud.json'', File)])]"
  have ev: "findMaliciousArtifacts ''/r'' ?t
      = [\<lparr>artifact = ''cloud.json'', artifact_path = ''/r/src/cloud.json''\<rparr>]"
    by code_simp
  from artifacts_skip_node_modules[of "''/r''" ?t]
  have "\<forall>r \<in> set (findMaliciousArtifacts ''/r'' ?t).
      \<exists>ns. file_at ?t ns \<and> ''node_modules'' \<notin> set ns
         \<and> artifact_path r = foldl path_join ''/r'' ns"
    by blast
  with ev show ?thesis by simp
qed

subsection \<open>C10: hidden entries in the two traversals\<close>

text \<open>
  C10. \<open>findPackageFiles\<close> records a \<open>package.json\<close> at a path exactly when a file of
  that name is reached there by entry names none of which is \<open>node_modules\<close> and none
  of which starts with a dot, \<open>.github\<close> excepted: a manifest under \<open>.github\<close> is
  recorded, one under any other hidden directory is not. Its result is the same when
  every such hidden entry is removed from the tree, at every depth, while \<open>.github\<close> is
  walked like any directory. \<open>findMaliciousArtifacts\<close> has no such test: every entry not
  named \<open>node_modules\<close>, hidden or not, is walked when it is a directory and tested
  against the artifact rules when it is not, so every file reached by names other than
  \<open>node_modules\<close> has its matches in the result.
\<close>

theorem hidden_entries_asymmetry:
  "findPackageFiles d (prune_hidden t) = findPackageFiles d t
   \<and> (hidden_name n \<longrightarrow>
      findPackageFiles d (Dir (es @ (n, u) # es')) = findPackageFiles d (Dir (es @ es')))
   \<and> findPackageFiles d (Dir (es @ (''.github'', u) # es'))
       = findPackageFiles d (Dir es)
         @ (if isDirectory u then findPackageFiles (path_join d ''.github'') u else [])
         @ findPackageFiles d (Dir es')
   \<and> (n \<noteq> ''node_modules'' \<longrightarrow>
      findMaliciousArtifacts d (Dir (es @ (n, u) # es'))
       = findMaliciousArtifacts d (Dir es)
         @ (if isDirectory u then findMaliciousArtifacts (path_join d n) u
            else check_file (path_join d n) n)
         @ findMaliciousArtifacts d (Dir es'))
   \<and> (file_at t ns \<and> ''node_modules'' \<notin> set ns \<longrightarrow>
      set (check_file (foldl path_join d ns) (last ns)) \<subseteq> set (findMaliciousArtifacts d t))
   \<and> ((\<lparr>item_type = ''package.json'', item_path = p\<rparr> \<in> set (findPackageFiles d t)) \<longleftrightarrow>
      (\<exists>ms. file_at t ms \<and> ''node_modules'' \<notin> set ms \<and> (\<forall>m \<in> set ms. \<not> hidden_name m)
            \<and> last ms = ''package.json'' \<and> p = foldl path_join d ms))"
proof -
  have a: "findPackageFiles d (prune_hidden t) = findPackageFiles d t"
    by (simp add: findPackageFiles_def scan_packages_prune_hidden)
  have b: "hidden_name n \<longrightarrow>
      findPackageFiles d (Dir (es @ (n, u) # es')) = findPackageFiles d (Dir (es @ es'))"
    by (simp add: findPackageFiles_def Let_def hidden_name_def startsWith_def)
  have c: "findPackageFiles d (Dir (es @ (''.github'', u) # es'))
       = findPackageFiles d (Dir es)
         @ (if isDirectory u then findPackageFiles (path_join d ''.github'') u else [])
         @ findPackageFiles d (Dir es')"
    by (simp add: findPackageFiles_def Let_def startsWith_def)
  have e: "n \<noteq> ''node_modules'' \<longrightarrow>
      findMaliciousArtifacts d (Dir (es @ (n, u) # es'))
       = findMaliciousArtifacts d (Dir es)
         @ (if isDirectory u then findMaliciousArtifacts (path_join d n) u
            else check_file (path_join d n) n)
         @ findMaliciousArtifacts d (Dir es')"
    by (simp add: findMaliciousArtifacts_def Let_def)
  have f: "file_at t ns \<and> ''node_modules'' \<notin> set ns \<longrightarrow>
      set (check_file (foldl path_join d ns) (last ns)) \<subseteq> set (findMaliciousArtifacts d t)"
    unfolding findMaliciousArtifacts_def using scan_artifacts_complete by blast
  have g: "(\<lparr>item_type = ''package.json'', item_path = p\<rparr> \<in> set (findPackageFiles d t)) \<longleftrightarrow>
      (\<exists>ms. file_at t ms \<and> ''node_modules'' \<notin> set ms \<and> (\<forall>m \<in> set ms. \<not> hidden_name m)
            \<and> last ms = ''package.json'' \<and> p = foldl path_join d ms)" (is "?L \<longleftrightarrow> ?R")
  proof
    assume ?L
    then have "\<lparr>item_type = ''package.json'', item_path = p\<rparr> \<in> set (scan_packages d t)"
      by (simp add: findPackageFiles_def)
    from scan_packages_manifest_sound[OF this] show ?R
      by simp
  next
    assume ?R
    then obtain ms where ms: "file_at t ms" "''node_modules'' \<notin> set ms"
      "\<forall>m \<in> set ms. \<not> hidden_name m" "last ms = ''package.json''"
      and p: "p = foldl path_join d ms"
      by blast
    from scan_packages_manifest_complete[OF ms, of d] p show ?L
      by (simp add: findPackageFiles_def)
  qed
  from a b c e f g show ?thesis
    by (intro conjI)
qed

theorem hidden_entries_asymmetry_witness:
  "hidden_name ''.git'' \<and> ''.git'' \<noteq> ''node_modules''
   \<and> findPackageFiles ''/r''
        (Dir [(''.git'', Dir [(''package.json'', File), (''environment.json'', File)])]) = []
   \<and> findMaliciousArtifacts ''/r''
        (Dir [(''.git'', Dir [(''package.json'', File), (''environment.json'', File)])])
       = [\<lparr>artifact = ''environment.json'', artifact_path = ''/r/.git/environment.json''\<rparr>]
   \<and> findPackageFiles ''/r''
        (Dir [(''.hidden'', Dir [(''package.json'', File)]),
              (''.github'', Dir [(''package.json'', File)])])
       = [\<lparr>item_type = ''package.json'', item_path = ''/r/.github/package.json''\<rparr>]
   \<and> \<lparr>item_type = ''package.json'', item_path = ''/r/.github/package.json''\<rparr>
       \<in> set (findPackageFiles ''/r''
                (Dir [(''.hidden'', Dir [(''package.json'', File)]),
                      (''.github'', Dir [(''package.json'', File)])]))"
proof -
  let ?g = "Dir [(''.hidden'', Dir [(''package.json'', File)]),
                 (''.github'', Dir [(''package.json'', File)])]"
  have h: "hidden_name ''.git''" "''.git'' \<noteq> ''node_modules''"
    by (simp_all add: hidden_name_def startsWith_def)
  have ev: "findMaliciousArtifacts ''/r/.git''
        (Dir [(''package.json'', File), (''environment.json'', File)])
       = [\<lparr>artifact = ''environment.json'', artifact_path = ''/r/.git/environment.json''\<rparr>]"
    by code_simp
  have pj: "path_join ''/r'' ''.git'' = ''/r/.git''"
    by code_simp
  have e: "findPackageFiles ''/r'' (Dir []) = []" "findMaliciousArtifacts ''/r'' (Dir []) = []"
    by (simp_all add: findPackageFiles_def findMaliciousArtifacts_def)
  have ms: "file_at ?g [''.github'', ''package.json'']
      \<and> ''node_modules'' \<notin> set [''.github'', ''package.json'']
      \<and> last [''.github'', ''package.json''] = ''package.json''
      \<and> ''/r/.github/package.json'' = foldl path_join ''/r'' [''.github'', ''package.json'']"
    by code_simp
  have nh: "\<not> hidden_name ''.github''" "\<not> hidden_name ''package.json''"
    by (simp_all add: hidden_name_def startsWith_def)
  have full: "findPackageFiles ''/r'' ?g
       = [\<lparr>item_type = ''package.json'', item_path = ''/r/.github/package.json''\<rparr>]"
    by code_simp
  note inst = hidden_entries_asymmetry[where d = "''/r''" and n = "''.git''" and es = "[]"
      and es' = "[]" and u = "Dir [(''package.json'', File), (''environment.json'', File)]"
      and t = ?g and ns = "[]" and p = "''/r/.github/package.json''"]
  from inst h(1) e(1) have p: "findPackageFiles ''/r''
        (Dir [(''.git'', Dir [(''package.json'', File), (''environment.json'', File)])]) = []"
    by simp
  from inst h(2) e(2) ev pj have q: "findMaliciousArtifacts ''/r''
        (Dir [(''.git'', Dir [(''package.json'', File), (''environment.json'', File)])])
       = [\<lparr>artifact = ''environment.json'', artifact_path = ''/r/.git/environment.json''\<rparr>]"
    by simp
  have "\<exists>ms. file_at ?g ms \<and> ''node_modules'' \<notin> set ms \<and> (\<forall>m \<in> set ms. \<not> hidden_name m)
            \<and> last ms = ''package.json'' \<and> ''/r/.github/package.json'' = foldl path_join ''/r'' ms"
    using ms nh by (intro exI[of _ "[''.github'', ''package.json'']"]) simp
  with inst have m: "\<lparr>item_type = ''package.json'', item_path = ''/r/.github/package.json''\<rparr>
       \<in> set (findPackageFiles ''/r'' ?g)"
    by blast
  from h p q full m show ?thesis
    by (intro conjI)
qed

subsection \<open>C2: one finding for each declared dependency on the IOC list\<close>

text \<open>
  C2, as amended. Let \<open>checkPackageJson\<close> return on a parsed manifest, and let
  \<open>(pkg, v)\<close> be an entry of one of the four dependency sections. If the database does
  not have \<open>pkg\<close>, no finding names it. If it has, \<open>v\<close> is a string and exactly one
  finding carries this package and this \<open>depType\<close>: \<open>INFECTED_PACKAGE\<close>/\<open>CRITICAL\<close> when
  the reduced version is in the infected set, \<open>KNOWN_TARGET\<close>/\<open>WARNING\<close> with the whole
  infected set in \<open>infectedVersions\<close> otherwise.
\<close>

theorem manifest_dependency_finding:
  assumes ret: "checkPackageJson filePath db verbose (Inr doc) = Inr fs"
    and dt: "dt \<in> set DEPENDENCY_TYPES"
    and sec: "get_prop doc dt = Inr (Some deps)" "truthy deps"
    and ent: "(pkg, v) \<in> set (object_entries deps)"
    and dist: "distinct (map fst (object_entries deps))"
  shows "(\<not> db_has db pkg \<longrightarrow> (\<forall>f \<in> set fs. package f \<noteq> Some pkg))
    \<and> (\<forall>infected. db_has db pkg \<and> db_get db pkg = Some infected \<longrightarrow>
         (\<exists>spec f. v = JStr spec
            \<and> filter (\<lambda>f. package f = Some pkg \<and> depType f = Some dt) fs = [f]
            \<and> (extractVersion spec \<in> set infected \<longrightarrow>
                 f = infected_package pkg (extractVersion spec) spec dt filePath
                 \<and> ftype f = ''INFECTED_PACKAGE'' \<and> severity f = ''CRITICAL'')
            \<and> (extractVersion spec \<notin> set infected \<longrightarrow>
                 f = known_target pkg (extractVersion spec) spec infected dt filePath
                 \<and> ftype f = ''KNOWN_TARGET'' \<and> severity f = ''WARNING''
                 \<and> infectedVersions f = Some infected)))"
proof -
  let ?P = "\<lambda>f. package f = Some pkg \<and> depType f = Some dt"
  let ?cdt = "check_dependency_type filePath db doc"
  let ?cd = "check_dependency filePath db dt"
  from ret obtain ds ss where ds: "collect ?cdt DEPENDENCY_TYPES = Inr ds"
    and ss: "check_scripts filePath doc = Inr ss" and fs: "fs = ds @ ss"
    by (auto simp: checkPackageJson_def split: sum.splits)
  have ss_none: "package f = None" if "f \<in> set ss" for f
    using check_scripts_fields[OF ss that] .
  have ds_known: "\<exists>d k. depType f = Some d \<and> package f = Some k \<and> db_get db k \<noteq> None"
    if "f \<in> set ds" for f
  proof -
    from collect_Inr_concat[OF ds] that
    obtain d where d: "d \<in> set DEPENDENCY_TYPES" "f \<in> set (projr (?cdt d))"
      by auto
    from collect_Inr_elem[OF ds d(1)] obtain zs where "?cdt d = Inr zs"
      by blast
    with d(2) check_dependency_type_fields[of filePath db doc d zs f] show ?thesis
      by auto
  qed
  have absent: "\<not> db_has db pkg \<longrightarrow> (\<forall>f \<in> set fs. package f \<noteq> Some pkg)"
  proof (intro impI ballI)
    fix f assume no: "\<not> db_has db pkg" and f: "f \<in> set fs"
    show "package f \<noteq> Some pkg"
    proof (cases "f \<in> set ds")
      case True
      from ds_known[OF True] no show ?thesis
        by (auto simp: db_has_get)
    next
      case False
      with f fs have "f \<in> set ss" by simp
      then show ?thesis by (simp add: ss_none)
    qed
  qed
  from collect_Inr_elem[OF ds dt] obtain secfs where secfs0: "?cdt dt = Inr secfs"
    by blast
  with sec have secfs: "collect ?cd (object_entries deps) = Inr secfs"
    by (simp add: check_dependency_type_def)
  from collect_Inr_elem[OF secfs ent] obtain zs where zs: "?cd (pkg, v) = Inr zs"
    by blast
  have "filter ?P ss = []"
    by (auto simp: filter_empty_conv ss_none)
  then have "filter ?P fs = filter ?P ds"
    by (simp add: fs)
  also have "\<dots> = concat (map (\<lambda>d. filter ?P (projr (?cdt d))) DEPENDENCY_TYPES)"
    by (rule filter_collect[OF ds])
  also have "\<dots> = filter ?P (projr (?cdt dt))"
  proof (rule concat_map_single[where k = "\<lambda>d. d"])
    show "distinct (map (\<lambda>d. d) DEPENDENCY_TYPES)"
      by (simp add: distinct_DEPENDENCY_TYPES)
    show "dt \<in> set DEPENDENCY_TYPES" by (rule dt)
    fix d assume d: "d \<in> set DEPENDENCY_TYPES" "d \<noteq> dt"
    from collect_Inr_elem[OF ds d(1)] obtain ys where ys: "?cdt d = Inr ys"
      by blast
    have "depType f \<noteq> Some dt" if "f \<in> set ys" for f
      using check_dependency_type_fields[OF ys that] d(2) by simp
    with ys show "filter ?P (projr (?cdt d)) = []"
      by (auto simp: filter_empty_conv)
  qed
  also have "\<dots> = filter ?P secfs"
    by (simp add: secfs0)
  also have "\<dots> = concat (map (\<lambda>e. filter ?P (projr (?cd e))) (object_entries deps))"
    by (rule filter_collect[OF secfs])
  also have "\<dots> = filter ?P (projr (?cd (pkg, v)))"
  proof (rule concat_map_single[where k = fst])
    show "distinct (map fst (object_entries deps))" by (rule dist)
    show "(pkg, v) \<in> set (object_entries deps)" by (rule ent)
    fix e assume e: "e \<in> set (object_entries deps)" "fst e \<noteq> fst (pkg, v)"
    from collect_Inr_elem[OF secfs e(1)] obtain ys where ys: "?cd e = Inr ys"
      by blast
    have "package f \<noteq> Some pkg" if "f \<in> set ys" for f
      using check_dependency_fields[OF ys that] e(2) by simp
    with ys show "filter ?P (projr (?cd e)) = []"
      by (auto simp: filter_empty_conv)
  qed
  also have "\<dots> = filter ?P zs"
    by (simp add: zs)
  finally have flt: "filter ?P fs = filter ?P zs" .
  have present: "\<exists>spec f. v = JStr spec \<and> filter ?P fs = [f]
            \<and> (extractVersion spec \<in> set infected \<longrightarrow>
                 f = infected_package pkg (extractVersion spec) spec dt filePath
                 \<and> ftype f = ''INFECTED_PACKAGE'' \<and> severity f = ''CRITICAL'')
            \<and> (extractVersion spec \<notin> set infected \<longrightarrow>
                 f = known_target pkg (extractVersion spec) spec infected dt filePath
                 \<and> ftype f = ''KNOWN_TARGET'' \<and> severity f = ''WARNING''
                 \<and> infectedVersions f = Some infected)"
    if inf: "db_get db pkg = Some infected" for infected
  proof -
    from zs inf obtain spec where spec: "v = JStr spec"
      by (cases v) (auto simp: check_dependency_def)
    show ?thesis
    proof (cases "extractVersion spec \<in> set infected")
      case True
      with zs inf spec
      have "zs = [infected_package pkg (extractVersion spec) spec dt filePath]"
        by (auto simp: check_dependency_def Let_def)
      with flt True spec show ?thesis
        by (simp add: infected_package_def no_fields_def)
    next
      case False
      with zs inf spec
      have "zs = [known_target pkg (extractVersion spec) spec infected dt filePath]"
        by (auto simp: check_dependency_def Let_def)
      with flt False spec show ?thesis
        by (simp add: known_target_def no_fields_def)
    qed
  qed
  from absent present show ?thesis by blast
qed

theorem manifest_dependency_finding_witness:
  "checkPackageJson ''/p/package.json''
       [(''dev-infected'', [''2.0.0'']), (''other'', [''3.0.0''])] False
       (Inr (JObj [(''name'', JStr ''test-project''),
          (''devDependencies'',
             JObj [(''dev-infected'', JStr ''2.0.0''), (''other'', JStr ''~1.0.0'')])]))
     = Inr [infected_package ''dev-infected'' ''2.0.0'' ''2.0.0'' ''devDependencies''
              ''/p/package.json'',
            known_target ''other'' ''1.0.0'' ''~1.0.0'' [''3.0.0''] ''devDependencies''
              ''/p/package.json'']
   \<and> filter (\<lambda>f. package f = Some ''dev-infected'' \<and> depType f = Some ''devDependencies'')
        [infected_package ''dev-infected'' ''2.0.0'' ''2.0.0'' ''devDependencies''
              ''/p/package.json'',
         known_target ''other'' ''1.0.0'' ''~1.0.0'' [''3.0.0''] ''devDependencies''
              ''/p/package.json'']
     = [infected_package ''dev-infected'' ''2.0.0'' ''2.0.0'' ''devDependencies''
              ''/p/package.json'']"
proof -
  let ?db = "[(''dev-infected'', [''2.0.0'']), (''other'', [''3.0.0''])]"
  let ?deps = "JObj [(''dev-infected'', JStr ''2.0.0''), (''other'', JStr ''~1.0.0'')]"
  let ?doc = "JObj [(''name'', JStr ''test-project''), (''devDependencies'', ?deps)]"
  let ?fs = "[infected_package ''dev-infected'' ''2.0.0'' ''2.0.0'' ''devDependencies''
              ''/p/package.json'',
            known_target ''other'' ''1.0.0'' ''~1.0.0'' [''3.0.0''] ''devDependencies''
              ''/p/package.json'']"
  have ret: "checkPackageJson ''/p/package.json'' ?db False (Inr ?doc) = Inr ?fs"
    by (simp add: checkPackageJson_def DEPENDENCY_TYPES_def check_dependency_type_def
        check_dependency_def db_get_def extractVersion_eq is_operator_def check_scripts_def
        Let_def)
  have dt: "''devDependencies'' \<in> set DEPENDENCY_TYPES"
    by (simp add: DEPENDENCY_TYPES_def)
  have sec: "get_prop ?doc ''devDependencies'' = Inr (Some ?deps)" "truthy ?deps"
    by simp_all
  have ent: "(''dev-infected'', JStr ''2.0.0'') \<in> set (object_entries ?deps)"
    by simp
  have dist: "distinct (map fst (object_entries ?deps))"
    by simp
  have has: "db_has ?db ''dev-infected'' \<and> db_get ?db ''dev-infected'' = Some [''2.0.0'']"
    by (simp add: db_has_def db_get_def)
  have ev: "extractVersion ''2.0.0'' \<in> set [''2.0.0'']"
    by (simp add: extractVersion_eq is_operator_def)
  from manifest_dependency_finding[OF ret dt sec ent dist] has
  obtain spec f where spec: "JStr ''2.0.0'' = JStr spec"
    and flt: "filter (\<lambda>f. package f = Some ''dev-infected''
                          \<and> depType f = Some ''devDependencies'') ?fs = [f]"
    and inf: "extractVersion spec \<in> set [''2.0.0''] \<longrightarrow>
           f = infected_package ''dev-infected'' (extractVersion spec) spec ''devDependencies''
                 ''/p/package.json''"
    by blast
  from spec have s2: "spec = ''2.0.0''"
    by simp
  have e2: "extractVersion ''2.0.0'' = ''2.0.0''"
    by (simp add: extractVersion_eq is_operator_def)
  from inf have "f = infected_package ''dev-infected'' ''2.0.0'' ''2.0.0'' ''devDependencies''
                 ''/p/package.json''"
    unfolding s2 e2 by simp
  with flt have "filter (\<lambda>f. package f = Some ''dev-infected''
                          \<and> depType f = Some ''devDependencies'') ?fs
      = [infected_package ''dev-infected'' ''2.0.0'' ''2.0.0'' ''devDependencies''
                 ''/p/package.json'']"
    by (simp only:)
  with ret show ?thesis
    by (rule conjI)
qed

text \<open>
  C2 as stated fails on a parseable manifest on which the call throws: a declared
  version that is not a string, for a name on the list, raises \<open>TypeError\<close> in
  \<open>extractVersion\<close>, and the infected dependency declared after it yields no finding.
\<close>

theorem manifest_dependency_throw_counterexample:
  "checkPackageJson ''/p/package.json'' [(''a'', [''1'']), (''evil'', [''1.0.0''])] False
     (Inr (JObj [(''dependencies'', JObj [(''a'', JNum 1), (''evil'', JStr ''1.0.0'')])]))
     = Inl TypeError
   \<and> (''evil'', JStr ''1.0.0'')
       \<in> set (object_entries (JObj [(''a'', JNum 1), (''evil'', JStr ''1.0.0'')]))
   \<and> db_get [(''a'', [''1'']), (''evil'', [''1.0.0''])] ''evil'' = Some [''1.0.0'']
   \<and> extractVersion ''1.0.0'' \<in> set [''1.0.0'']"
  by (simp add: checkPackageJson_def DEPENDENCY_TYPES_def check_dependency_type_def
      check_dependency_def db_get_def extractVersion_eq is_operator_def)

subsection \<open>C7: a manifest that does not parse, and one that parses to \<open>null\<close>\<close>

text \<open>
  C7 says that \<open>checkPackageJson\<close> never throws past the call. The \<open>try\<close> of
  \<open>lib/analyzer.js\<close> encloses the read and the parse only, so a manifest whose content
  is the JSON document \<open>null\<close> parses, and the first property access of the dependency
  loop, \<open>content[depType]\<close>, throws a TypeError that leaves the call, whatever the path,
  the database and the verbose flag are. The earlier scripts of the repository enclose
  the whole body of the function in the \<open>try\<close> and report this file as a parse error.
\<close>

theorem manifest_null_throws:
  "checkPackageJson filePath db verbose (Inr JNull) = Inl TypeError"
  by (simp add: checkPackageJson_def DEPENDENCY_TYPES_def check_dependency_type_def)

text \<open>
  On content that fails to parse, the call returns: in verbose mode the single finding
  \<open>PARSE_ERROR\<close>/\<open>INFO\<close> with the path of the file and the message, otherwise no
  finding; nothing else of the file is analysed.
\<close>

lemma manifest_parse_failure:
  "checkPackageJson filePath db True (Inl msg)
     = Inr [no_fields\<lparr>ftype := ''PARSE_ERROR'', severity := ''INFO'', ffile := Some filePath,
              message := Some (''Failed to parse: '' @ msg)\<rparr>]
   \<and> checkPackageJson filePath db False (Inl msg) = Inr []"
  by (simp add: checkPackageJson_def parse_error_file_def)

subsection \<open>C6: a \<open>packages\<close> key of a lockfile\<close>

text \<open>
  C6, as amended. Let \<open>checkPackageLock\<close> return on a parsed lockfile whose \<open>packages\<close>
  mapping has the key \<open>node_modules/\<close> followed by a name (with no further
  \<open>node_modules/\<close> in it), where the entry's version is a non-empty string of the
  infected set of that name. Then the name derived from the key is that name, the key
  yields exactly one finding, \<open>INFECTED_LOCKED_PACKAGE\<close>/\<open>CRITICAL\<close> with this package,
  and the finding is in the result. It is the only finding with this package when no
  other key derives the same name and the document has no \<open>dependencies\<close> tree. For
  every key that begins with \<open>node_modules/\<close> the derived name is the last
  \<open>node_modules/\<close>-delimited segment of the rest.
\<close>

theorem lockfile_packages_entry:
  assumes ret: "checkPackageLock filePath db verbose (Inr doc) = Inr fs"
    and pk: "get_prop doc ''packages'' = Inr (Some packages)" "truthy packages"
    and ent: "(''node_modules/'' @ name, info) \<in> set (object_entries packages)"
    and nm: "\<not> includes_str name ''node_modules/''"
    and ver: "get_prop info ''version'' = Inr (Some (JStr v))" "v \<noteq> []"
    and inf: "db_get db name = Some infected" "v \<in> set infected"
  shows "pkgName_of (''node_modules/'' @ name) = name
    \<and> check_packages_entry filePath db (''node_modules/'' @ name, info)
        = Inr [no_fields\<lparr>ftype := ''INFECTED_LOCKED_PACKAGE'', severity := ''CRITICAL'',
                 package := Some name, version := Some v, ffile := Some filePath,
                 installed := Some True\<rparr>]
    \<and> no_fields\<lparr>ftype := ''INFECTED_LOCKED_PACKAGE'', severity := ''CRITICAL'',
                 package := Some name, version := Some v, ffile := Some filePath,
                 installed := Some True\<rparr> \<in> set fs
    \<and> (distinct (map fst (object_entries packages))
         \<and> (\<forall>e \<in> set (object_entries packages).
               fst e \<noteq> ''node_modules/'' @ name \<longrightarrow> pkgName_of (fst e) \<noteq> name)
         \<and> get_prop doc ''dependencies'' = Inr None
        \<longrightarrow> filter (\<lambda>f. package f = Some name) fs
            = [no_fields\<lparr>ftype := ''INFECTED_LOCKED_PACKAGE'', severity := ''CRITICAL'',
                 package := Some name, version := Some v, ffile := Some filePath,
                 installed := Some True\<rparr>])
    \<and> (\<forall>rest. pkgName_of (''node_modules/'' @ rest) = last (split rest ''node_modules/''))"
proof -
  let ?F = "no_fields\<lparr>ftype := ''INFECTED_LOCKED_PACKAGE'', severity := ''CRITICAL'',
                 package := Some name, version := Some v, ffile := Some filePath,
                 installed := Some True\<rparr>"
  let ?key = "''node_modules/'' @ name"
  let ?cpe = "check_packages_entry filePath db"
  let ?P = "\<lambda>f. package f = Some name"
  have F: "infected_locked_package name v filePath = ?F"
    by (simp add: infected_locked_package_def)
  have pn: "pkgName_of ?key = name"
    using nm by (rule pkgName_of_plain)
  have entry: "?cpe (?key, info) = Inr [?F]"
  proof -
    have "?cpe (?key, info) = check_locked filePath db (pkgName_of ?key) info"
      by (simp add: check_packages_entry_def)
    also have "\<dots> = check_locked filePath db name info"
      by (simp only: pn)
    also have "\<dots> = Inr [?F]"
      using ver inf by (simp add: check_locked_def F)
    finally show ?thesis .
  qed
  from ret pk obtain v2 where v2: "collect ?cpe (object_entries packages) = Inr v2"
    and sub: "set v2 \<subseteq> set fs"
    and only: "get_prop doc ''dependencies'' = Inr None \<longrightarrow> fs = v2"
    by (auto simp: checkPackageLock_def split: sum.splits option.splits if_splits)
  from collect_Inr_concat[OF v2] ent entry have "?F \<in> set v2"
    by force
  with sub have mem: "?F \<in> set fs"
    by blast
  have one: "filter ?P fs = [?F]"
    if dist: "distinct (map fst (object_entries packages))"
      and other: "\<forall>e \<in> set (object_entries packages). fst e \<noteq> ?key \<longrightarrow> pkgName_of (fst e) \<noteq> name"
      and nodeps: "get_prop doc ''dependencies'' = Inr None"
  proof -
    from only nodeps have "filter ?P fs = filter ?P v2"
      by simp
    also have "\<dots> = concat (map (\<lambda>e. filter ?P (projr (?cpe e))) (object_entries packages))"
      by (rule filter_collect[OF v2])
    also have "\<dots> = filter ?P (projr (?cpe (?key, info)))"
    proof (rule concat_map_single[where k = fst])
      show "distinct (map fst (object_entries packages))" by (rule dist)
      show "(?key, info) \<in> set (object_entries packages)" by (rule ent)
      fix e assume e: "e \<in> set (object_entries packages)" "fst e \<noteq> fst (?key, info)"
      from collect_Inr_elem[OF v2 e(1)] obtain ys where ys: "?cpe e = Inr ys"
        by blast
      from e other have "pkgName_of (fst e) \<noteq> name"
        by simp
      then have "package f \<noteq> Some name" if "f \<in> set ys" for f
        using check_packages_entry_fields[OF ys that] by simp
      with ys show "filter ?P (projr (?cpe e)) = []"
        by (auto simp: filter_empty_conv)
    qed
    also have "\<dots> = [?F]"
      by (simp only: entry) (simp add: no_fields_def)
    finally show ?thesis .
  qed
  from pn entry mem one pkgName_of_leading show ?thesis
    by blast
qed

theorem lockfile_packages_entry_witness:
  "checkPackageLock ''/p/package-lock.json'' [(''@scope/infected'', [''2.0.0''])] False
     (Inr (JObj [(''lockfileVersion'', JNum 2),
        (''packages'', JObj [([], JObj [(''name'', JStr ''test'')]),
           (''node_modules/@scope/infected'', JObj [(''version'', JStr ''2.0.0'')])])]))
   = Inr [infected_locked_package ''@scope/infected'' ''2.0.0'' ''/p/package-lock.json'']
   \<and> pkgName_of ''node_modules/@scope/infected'' = ''@scope/infected''
   \<and> filter (\<lambda>f. package f = Some ''@scope/infected'')
        [infected_locked_package ''@scope/infected'' ''2.0.0'' ''/p/package-lock.json'']
      = [no_fields\<lparr>ftype := ''INFECTED_LOCKED_PACKAGE'', severity := ''CRITICAL'',
                 package := Some ''@scope/infected'', version := Some ''2.0.0'',
                 ffile := Some ''/p/package-lock.json'', installed := Some True\<rparr>]"
proof -
  let ?db = "[(''@scope/infected'', [''2.0.0''])]"
  let ?info = "JObj [(''version'', JStr ''2.0.0'')]"
  let ?packages = "JObj [([], JObj [(''name'', JStr ''test'')]),
           (''node_modules/@scope/infected'', ?info)]"
  let ?doc = "JObj [(''lockfileVersion'', JNum 2), (''packages'', ?packages)]"
  let ?fs = "[infected_locked_package ''@scope/infected'' ''2.0.0'' ''/p/package-lock.json'']"
  have nm: "\<not> includes_str ''@scope/infected'' ''node_modules/''"
    by simp
  have n: "pkgName_of ''node_modules/@scope/infected'' = ''@scope/infected''"
    using pkgName_of_plain[OF nm] by simp
  have n0: "pkgName_of [] = []"
    by (simp add: pkgName_of_def split_def)
  have ret: "checkPackageLock ''/p/package-lock.json'' ?db False (Inr ?doc) = Inr ?fs"
    by (simp add: checkPackageLock_def check_packages_entry_def n check_locked_def db_get_def)
  have pk: "get_prop ?doc ''packages'' = Inr (Some ?packages)" "truthy ?packages"
    by simp_all
  have ent: "(''node_modules/'' @ ''@scope/infected'', ?info) \<in> set (object_entries ?packages)"
    by simp
  have ver: "get_prop ?info ''version'' = Inr (Some (JStr ''2.0.0''))" "''2.0.0'' \<noteq> []"
    by simp_all
  have inf: "db_get ?db ''@scope/infected'' = Some [''2.0.0'']" "''2.0.0'' \<in> set [''2.0.0'']"
    by (simp_all add: db_get_def)
  have side: "distinct (map fst (object_entries ?packages))
         \<and> (\<forall>e \<in> set (object_entries ?packages).
               fst e \<noteq> ''node_modules/'' @ ''@scope/infected''
               \<longrightarrow> pkgName_of (fst e) \<noteq> ''@scope/infected'')
         \<and> get_prop ?doc ''dependencies'' = Inr None"
    by (simp add: n0)
  from lockfile_packages_entry[OF ret pk ent nm ver inf] side
  have "filter (\<lambda>f. package f = Some ''@scope/infected'') ?fs
      = [no_fields\<lparr>ftype := ''INFECTED_LOCKED_PACKAGE'', severity := ''CRITICAL'',
                 package := Some ''@scope/infected'', version := Some ''2.0.0'',
                 ffile := Some ''/p/package-lock.json'', installed := Some True\<rparr>]"
    by blast
  with ret n show ?thesis
    by (intro conjI)
qed

text \<open>
  C6 as stated fails on "exactly one": a lockfile of version 2 lists a package both under
  \<open>packages\<close> and in the \<open>dependencies\<close> tree, both are checked, and the same finding
  is emitted twice.
\<close>

theorem lockfile_two_findings_counterexample:
  "checkPackageLock ''/p/package-lock.json'' [(''@scope/pkg'', [''2.0.0''])] False
     (Inr (JObj [(''lockfileVersion'', JNum 2),
        (''packages'', JObj [([], JObj [(''name'', JStr ''test'')]),
           (''node_modules/@scope/pkg'', JObj [(''version'', JStr ''2.0.0'')])]),
        (''dependencies'', JObj [(''@scope/pkg'', JObj [(''version'', JStr ''2.0.0'')])])]))
   = Inr [infected_locked_package ''@scope/pkg'' ''2.0.0'' ''/p/package-lock.json'',
          infected_locked_package ''@scope/pkg'' ''2.0.0'' ''/p/package-lock.json'']
   \<and> package (infected_locked_package ''@scope/pkg'' ''2.0.0'' ''/p/package-lock.json'')
       = Some ''@scope/pkg''"
proof -
  have n: "pkgName_of ''node_modules/@scope/pkg'' = ''@scope/pkg''"
    using pkgName_of_plain[of "''@scope/pkg''"] by simp
  show ?thesis
    by (simp add: checkPackageLock_def check_packages_entry_def n check_locked_def db_get_def
        checkDependenciesV1.simps infected_locked_package_def no_fields_def)
qed

subsection \<open>C8: the manifest of an installed package\<close>

text \<open>
  C8, as amended. For a package name the database has: a missing nested \<open>package.json\<close>
  gives no finding; one that cannot be read or parsed gives no finding unless verbose
  mode is on, where it gives one \<open>PARSE_ERROR\<close>/\<open>INFO\<close> finding with the path of the
  nested manifest; and an \<open>INSTALLED_INFECTED_PACKAGE\<close> finding is produced exactly when
  the nested manifest parses and its version is a string of the infected set, in which
  case it is the only finding, \<open>CRITICAL\<close>, with the installation path.
\<close>

theorem installed_package_check:
  assumes "db_get db pkgName = Some infected"
  shows "checkInstalledPackage pkgName pkgPath db verbose Missing = Inr []
    \<and> checkInstalledPackage pkgName pkgPath db False (Unparsable msg) = Inr []
    \<and> checkInstalledPackage pkgName pkgPath db True (Unparsable msg)
        = Inr [no_fields\<lparr>ftype := ''PARSE_ERROR'', severity := ''INFO'',
                 path := Some (path_join pkgPath ''package.json''),
                 message := Some (''Failed to parse: '' @ msg)\<rparr>]
    \<and> ((\<exists>fs f. checkInstalledPackage pkgName pkgPath db verbose m = Inr fs \<and> f \<in> set fs
              \<and> ftype f = ''INSTALLED_INFECTED_PACKAGE'')
         \<longleftrightarrow> (\<exists>doc v. m = Parsed doc \<and> get_prop doc ''version'' = Inr (Some (JStr v))
                    \<and> v \<in> set infected))
    \<and> (\<forall>doc v. m = Parsed doc \<and> get_prop doc ''version'' = Inr (Some (JStr v))
           \<and> v \<in> set infected \<longrightarrow>
         checkInstalledPackage pkgName pkgPath db verbose m
           = Inr [no_fields\<lparr>ftype := ''INSTALLED_INFECTED_PACKAGE'', severity := ''CRITICAL'',
                    package := Some pkgName, version := Some v, path := Some pkgPath\<rparr>])"
proof -
  have pe: "ftype (parse_error_path p msg') \<noteq> ''INSTALLED_INFECTED_PACKAGE''" for p msg'
    by (simp add: parse_error_path_def no_fields_def)
  have a: "checkInstalledPackage pkgName pkgPath db verbose Missing = Inr []"
    using assms by (simp add: checkInstalledPackage_def)
  have b: "checkInstalledPackage pkgName pkgPath db False (Unparsable msg) = Inr []"
    using assms by (simp add: checkInstalledPackage_def)
  have c: "checkInstalledPackage pkgName pkgPath db True (Unparsable msg)
        = Inr [no_fields\<lparr>ftype := ''PARSE_ERROR'', severity := ''INFO'',
                 path := Some (path_join pkgPath ''package.json''),
                 message := Some (''Failed to parse: '' @ msg)\<rparr>]"
    using assms by (simp add: checkInstalledPackage_def parse_error_path_def)
  have e: "checkInstalledPackage pkgName pkgPath db verbose m
           = Inr [no_fields\<lparr>ftype := ''INSTALLED_INFECTED_PACKAGE'', severity := ''CRITICAL'',
                    package := Some pkgName, version := Some v, path := Some pkgPath\<rparr>]"
    if "m = Parsed doc" "get_prop doc ''version'' = Inr (Some (JStr v))" "v \<in> set infected"
    for doc v
    using assms that by (simp add: checkInstalledPackage_def installed_infected_package_def)
  have d: "(\<exists>fs f. checkInstalledPackage pkgName pkgPath db verbose m = Inr fs \<and> f \<in> set fs
              \<and> ftype f = ''INSTALLED_INFECTED_PACKAGE'')
         \<longleftrightarrow> (\<exists>doc v. m = Parsed doc \<and> get_prop doc ''version'' = Inr (Some (JStr v))
                    \<and> v \<in> set infected)" (is "?L \<longleftrightarrow> ?R")
  proof
    assume ?L
    then obtain fs f where r: "checkInstalledPackage pkgName pkgPath db verbose m = Inr fs"
      "f \<in> set fs" "ftype f = ''INSTALLED_INFECTED_PACKAGE''"
      by blast
    show ?R
    proof (cases m)
      case Missing
      with r a show ?thesis by simp
    next
      case (Unparsable msg')
      with r assms pe show ?thesis
        by (auto simp: checkInstalledPackage_def split: if_splits)
    next
      case (Parsed doc)
      with r assms show ?thesis
        by (auto simp: checkInstalledPackage_def
            split: sum.splits option.splits json.splits if_splits)
    qed
  next
    assume ?R
    then obtain doc v where "m = Parsed doc" "get_prop doc ''version'' = Inr (Some (JStr v))"
      "v \<in> set infected"
      by blast
    from e[OF this] show ?L
      by (simp add: no_fields_def)
  qed
  from a b c d e show ?thesis
    by blast
qed

theorem installed_package_check_witness:
  "db_get [(''evil'', [''1.0.0''])] ''evil'' = Some [''1.0.0'']
   \<and> checkInstalledPackage ''evil'' ''/r/node_modules/evil'' [(''evil'', [''1.0.0''])] False
        (Parsed (JObj [(''name'', JStr ''evil''), (''version'', JStr ''1.0.0'')]))
      = Inr [no_fields\<lparr>ftype := ''INSTALLED_INFECTED_PACKAGE'', severity := ''CRITICAL'',
               package := Some ''evil'', version := Some ''1.0.0'',
               path := Some ''/r/node_modules/evil''\<rparr>]
   \<and> checkInstalledPackage ''evil'' ''/r/node_modules/evil'' [(''evil'', [''1.0.0''])] False
        Missing = Inr []"
proof -
  have g: "db_get [(''evil'', [''1.0.0''])] ''evil'' = Some [''1.0.0'']"
    by (simp add: db_get_def)
  have v: "get_prop (JObj [(''name'', JStr ''evil''), (''version'', JStr ''1.0.0'')]) ''version''
      = Inr (Some (JStr ''1.0.0''))"
    by simp
  from installed_package_check[OF g, where pkgPath = "''/r/node_modules/evil''"
      and verbose = False
      and m = "Parsed (JObj [(''name'', JStr ''evil''), (''version'', JStr ''1.0.0'')])"] g v
  show ?thesis
    by simp
qed

text \<open>
  C8 as stated fails in verbose mode: an unparsable nested manifest is reported.
\<close>

theorem installed_package_verbose_counterexample:
  "db_has [(''evil'', [''1.0.0''])] ''evil''
   \<and> checkInstalledPackage ''evil'' ''/r/node_modules/evil'' [(''evil'', [''1.0.0''])] True
       (Unparsable ''Unexpected end of JSON input'')
     = Inr [no_fields\<lparr>ftype := ''PARSE_ERROR'', severity := ''INFO'',
              path := Some ''/r/node_modules/evil/package.json'',
              message := Some ''Failed to parse: Unexpected end of JSON input''\<rparr>]
   \<and> checkInstalledPackage ''evil'' ''/r/node_modules/evil'' [(''evil'', [''1.0.0''])] True
       (Unparsable ''Unexpected end of JSON input'') \<noteq> Inr []"
proof -
  have pj: "path_join ''/r/node_modules/evil'' ''package.json''
      = ''/r/node_modules/evil/package.json''"
    by code_simp
  show ?thesis
    by (simp add: checkInstalledPackage_def db_get_def db_has_def parse_error_path_def pj)
qed

subsection \<open>C4: the two formats of the IOC file\<close>

text \<open>
  C4, as amended. A well-formed table is: skipped lines (lines, such as blank ones, that
  contain neither \<open>| Package\<close> nor \<open>|---\<close>, hold no tab and do not start with \<open>|\<close>),
  then a header line containing \<open>| Package\<close> (or a separator line containing \<open>|---\<close>),
  then in any order separator and header lines, skipped lines, and rows
  \<open>| name | version | cell | ... |\<close> with any number of further cells, none of which
  holds \<open>|\<close> or begins with \<open>Package\<close>. Well-formed tab-separated text is, in any order,
  skipped lines and rows \<open>name<TAB>version<TAB>column...\<close> with any number of further
  columns, none of which holds \<open>|\<close>. The entries have fields that can be rendered
  (non-empty, no white space, no \<open>|\<close>), names that do not contain the word \<open>Package\<close>
  and versions that do not begin with it. Loading such a table and loading such a
  tab-separated text with the same entries, in any order and with any repetition, give
  databases with the same names and the same set of versions for each name (the same
  database when the order is the same); every entry of the table is in the loaded
  database; and the empty source loads as the empty database, without error.
\<close>

theorem load_formats_agree:
  assumes table: "table_ok tdoc" and tsv: "tsv_ok sdoc"
    and same: "set (entries_of sdoc) = set (entries_of tdoc)"
  shows "(\<exists>db db'. loadInfectedPackages (Inr (render_table tdoc)) = Inr db
      \<and> loadInfectedPackages (Inr (render_tsv sdoc)) = Inr db'
      \<and> (\<forall>n. db_has db n = db_has db' n \<and> versions_of db n = versions_of db' n)
      \<and> (\<forall>e \<in> set (entries_of tdoc). db_has db (fst e) \<and> snd e \<in> versions_of db (fst e))
      \<and> (entries_of sdoc = entries_of tdoc \<longrightarrow> db' = db))
    \<and> loadInfectedPackages (Inr []) = Inr []"
proof -
  let ?db = "foldl add_entry [] (entries_of tdoc)"
  let ?db' = "foldl add_entry [] (entries_of sdoc)"
  have t: "loadInfectedPackages (Inr (render_table tdoc)) = Inr ?db"
    using table by (rule load_render_table)
  have s: "loadInfectedPackages (Inr (render_tsv sdoc)) = Inr ?db'"
    using tsv by (rule load_render_tsv)
  have h0: "\<not> db_has [] k" for k
    by (simp add: db_has_def)
  have v0: "versions_of [] k = {}" for k
    by (simp add: versions_of_def db_get_def)
  have agree: "db_has ?db n = db_has ?db' n \<and> versions_of ?db n = versions_of ?db' n" for n
    by (simp add: db_has_foldl versions_of_foldl h0 v0 same)
  have member: "db_has ?db (fst e) \<and> snd e \<in> versions_of ?db (fst e)"
    if "e \<in> set (entries_of tdoc)" for e
    using that by (auto simp: db_has_foldl versions_of_foldl)
  have empty: "loadInfectedPackages (Inr []) = Inr []"
    by (simp add: loadInfectedPackages_def split_def load_line_empty)
  from t s agree member empty show ?thesis
    by (auto simp: same)
qed

theorem load_formats_agree_witness:
  "table_ok [Skipped [], Marker ''| Package | Version | Status |'',
       Marker ''|---------|---------|--------|'',
       Entry (''bad-package'', ''1.0.0'') [''offline''],
       Entry (''@scope/pkg'', ''2.0.0'') [''offline''],
       Entry (''bad-package'', ''1.0.1'') [''offline''], Skipped []]
   \<and> tsv_ok [Skipped [], Entry (''@scope/pkg'', ''2.0.0'') [''offline''],
       Entry (''bad-package'', ''1.0.0'') [''offline''],
       Entry (''bad-package'', ''1.0.1'') [], Skipped []]
   \<and> render_table [Skipped [], Marker ''| Package | Version | Status |'',
       Marker ''|---------|---------|--------|'',
       Entry (''bad-package'', ''1.0.0'') [''offline''],
       Entry (''@scope/pkg'', ''2.0.0'') [''offline''],
       Entry (''bad-package'', ''1.0.1'') [''offline''], Skipped []]
     = newline # ''| Package | Version | Status |'' @ newline
       # ''|---------|---------|--------|'' @ newline
       # ''| bad-package | 1.0.0 | offline |'' @ newline
       # ''| @scope/pkg | 2.0.0 | offline |'' @ newline
       # ''| bad-package | 1.0.1 | offline |'' @ [newline]
   \<and> render_tsv [Skipped [], Entry (''@scope/pkg'', ''2.0.0'') [''offline''],
       Entry (''bad-package'', ''1.0.0'') [''offline''],
       Entry (''bad-package'', ''1.0.1'') [], Skipped []]
     = newline # ''@scope/pkg'' @ tab # ''2.0.0'' @ tab # ''offline'' @ newline
       # ''bad-package'' @ tab # ''1.0.0'' @ tab # ''offline'' @ newline
       # ''bad-package'' @ tab # ''1.0.1'' @ [newline]
   \<and> loadInfectedPackages (Inr (render_table [Skipped [], Marker ''| Package | Version | Status |'',
       Marker ''|---------|---------|--------|'',
       Entry (''bad-package'', ''1.0.0'') [''offline''],
       Entry (''@scope/pkg'', ''2.0.0'') [''offline''],
       Entry (''bad-package'', ''1.0.1'') [''offline''], Skipped []]))
     = Inr [(''bad-package'', [''1.0.0'', ''1.0.1'']), (''@scope/pkg'', [''2.0.0''])]
   \<and> loadInfectedPackages (Inr (render_tsv [Skipped [], Entry (''@scope/pkg'', ''2.0.0'') [''offline''],
       Entry (''bad-package'', ''1.0.0'') [''offline''],
       Entry (''bad-package'', ''1.0.1'') [], Skipped []]))
     = Inr [(''@scope/pkg'', [''2.0.0'']), (''bad-package'', [''1.0.0'', ''1.0.1''])]
   \<and> versions_of [(''@scope/pkg'', [''2.0.0'']), (''bad-package'', [''1.0.0'', ''1.0.1''])] ''bad-package''
     = {''1.0.0'', ''1.0.1''}"
proof -
  let ?T = "[Skipped [], Marker ''| Package | Version | Status |'',
       Marker ''|---------|---------|--------|'',
       Entry (''bad-package'', ''1.0.0'') [''offline''],
       Entry (''@scope/pkg'', ''2.0.0'') [''offline''],
       Entry (''bad-package'', ''1.0.1'') [''offline''], Skipped []]"
  let ?S = "[Skipped [], Entry (''@scope/pkg'', ''2.0.0'') [''offline''],
       Entry (''bad-package'', ''1.0.0'') [''offline''],
       Entry (''bad-package'', ''1.0.1'') [], Skipped []]"
  let ?db = "[(''bad-package'', [''1.0.0'', ''1.0.1'']), (''@scope/pkg'', [''2.0.0''])]"
  let ?db' = "[(''@scope/pkg'', [''2.0.0'']), (''bad-package'', [''1.0.0'', ''1.0.1''])]"
  have tok: "table_ok ?T"
    by code_simp
  have sok: "tsv_ok ?S"
    by code_simp
  have same: "set (entries_of ?S) = set (entries_of ?T)"
    by auto
  have rt: "render_table ?T
     = newline # ''| Package | Version | Status |'' @ newline
       # ''|---------|---------|--------|'' @ newline
       # ''| bad-package | 1.0.0 | offline |'' @ newline
       # ''| @scope/pkg | 2.0.0 | offline |'' @ newline
       # ''| bad-package | 1.0.1 | offline |'' @ [newline]"
    by code_simp
  have rs: "render_tsv ?S
     = newline # ''@scope/pkg'' @ tab # ''2.0.0'' @ tab # ''offline'' @ newline
       # ''bad-package'' @ tab # ''1.0.0'' @ tab # ''offline'' @ newline
       # ''bad-package'' @ tab # ''1.0.1'' @ [newline]"
    by code_simp
  have t: "loadInfectedPackages (Inr (render_table ?T)) = Inr ?db"
    by code_simp
  have s: "loadInfectedPackages (Inr (render_tsv ?S)) = Inr ?db'"
    by code_simp
  from load_formats_agree[OF tok sok same] t s
  have "versions_of ?db ''bad-package'' = versions_of ?db' ''bad-package''"
    by (metis sum.inject(2))
  moreover have "versions_of ?db ''bad-package'' = {''1.0.0'', ''1.0.1''}"
    by (auto simp: versions_of_def db_get_def)
  ultimately have v: "versions_of ?db' ''bad-package'' = {''1.0.0'', ''1.0.1''}"
    by simp
  from tok sok rt rs t s v show ?thesis
    by (intro conjI)
qed

text \<open>
  C4 as stated fails for a name that contains the word \<open>Package\<close>: the table reader
  takes the row for a repeated header and drops it, the tab-separated reader keeps it.
\<close>

theorem load_package_name_counterexample:
  "field_ok ''Package-x'' \<and> field_ok ''1.0.0''
   \<and> render_table [Marker ''| Package | Version |'', Marker ''|---|---|'',
        Entry (''Package-x'', ''1.0.0'') []]
       = ''| Package | Version |'' @ newline # ''|---|---|'' @ newline # ''| Package-x | 1.0.0 |''
   \<and> render_tsv [Entry (''Package-x'', ''1.0.0'') []] = ''Package-x'' @ tab # ''1.0.0''
   \<and> loadInfectedPackages (Inr (render_table [Marker ''| Package | Version |'', Marker ''|---|---|'',
        Entry (''Package-x'', ''1.0.0'') []])) = Inr []
   \<and> loadInfectedPackages (Inr (render_tsv [Entry (''Package-x'', ''1.0.0'') []]))
       = Inr [(''Package-x'', [''1.0.0''])]"
proof -
  have "field_ok ''Package-x'' \<and> field_ok ''1.0.0''"
    by (simp add: field_ok_def is_space_def)
  moreover have "render_table [Marker ''| Package | Version |'', Marker ''|---|---|'',
        Entry (''Package-x'', ''1.0.0'') []]
       = ''| Package | Version |'' @ newline # ''|---|---|'' @ newline # ''| Package-x | 1.0.0 |''"
    by code_simp
  moreover have "render_tsv [Entry (''Package-x'', ''1.0.0'') []] = ''Package-x'' @ tab # ''1.0.0''"
    by code_simp
  moreover have "loadInfectedPackages (Inr (render_table [Marker ''| Package | Version |'',
        Marker ''|---|---|'', Entry (''Package-x'', ''1.0.0'') []])) = Inr []"
    by code_simp
  moreover have "loadInfectedPackages (Inr (render_tsv [Entry (''Package-x'', ''1.0.0'') []]))
       = Inr [(''Package-x'', [''1.0.0''])]"
    by code_simp
  ultimately show ?thesis
    by (intro conjI) simp_all
qed

text \<open>
  The conditions on the lines are needed. A separator row written with spaces,
  \<open>| --- | --- |\<close>, is read as the entry \<open>---\<close> with version \<open>---\<close>; a row whose third
  cell begins with \<open>Package\<close> is taken for a header and dropped, while the tab-separated
  row with the same third column is kept.
\<close>

lemma table_shape_limits:
  "loadInfectedPackages (Inr (''| Package | Version |'' @ newline # ''| --- | --- |'' @ newline
        # ''| bad-package | 1.0.0 |'')) = Inr [(''---'', [''---'']), (''bad-package'', [''1.0.0''])]
   \<and> loadInfectedPackages (Inr (''| Package | Version | Status |'' @ newline
        # ''|---|---|---|'' @ newline # ''| bad-package | 1.0.0 | Package removed |'')) = Inr []
   \<and> loadInfectedPackages (Inr (''bad-package'' @ tab # ''1.0.0'' @ tab # ''Package removed''))
        = Inr [(''bad-package'', [''1.0.0''])]"
  by code_simp

subsection \<open>C5: lines that hold a tab\<close>

text \<open>
  C5, as amended. A line that holds a tab, that is not a header or separator line (it
  contains neither \<open>| Package\<close> nor \<open>|---\<close>) and that is not read as a table row (table
  mode on and the line starting with \<open>|\<close>) is trimmed and split at its tabs; when the
  trimmed line still holds a tab and its first two fields are non-empty after trimming,
  they are entered as name and version; otherwise the line changes nothing. Table mode
  is left as it was.
\<close>

theorem tab_line_fallback:
  assumes "tab \<in> set line"
    and "\<not> includes_str line ''| Package''" and "\<not> includes_str line ''|---''"
    and "\<not> (inTable \<and> startsWith line ''|'')"
  shows "load_line (inTable, db) line
    = (inTable,
       if tab \<in> set (trim line) \<and> trim (tab_field1 line) \<noteq> [] \<and> trim (tab_field2 line) \<noteq> []
       then addPackage db (trim (tab_field1 line)) (trim (tab_field2 line)) else db)"
proof (cases "tab \<in> set (trim line)")
  case True
  from split_at_first[OF True] obtain others where
    "split (trim line) [tab] = tab_field1 line # tab_field2 line # others"
    unfolding tab_field1_def tab_field2_def by blast
  with assms True show ?thesis
    by (auto simp: load_line_def includes_str_single)
next
  case False
  then have "split (trim line) [tab] = [trim line]"
    by (rule split_char_absent)
  with assms False show ?thesis
    by (auto simp: load_line_def includes_str_single)
qed

theorem tab_line_fallback_witness:
  "tab \<in> set (''bad-package'' @ tab # ''1.0.0'' @ tab # ''offline'')
   \<and> \<not> includes_str (''bad-package'' @ tab # ''1.0.0'' @ tab # ''offline'') ''| Package''
   \<and> \<not> includes_str (''bad-package'' @ tab # ''1.0.0'' @ tab # ''offline'') ''|---''
   \<and> \<not> (True \<and> startsWith (''bad-package'' @ tab # ''1.0.0'' @ tab # ''offline'') ''|'')
   \<and> load_line (True, []) (''bad-package'' @ tab # ''1.0.0'' @ tab # ''offline'')
      = (True, [(''bad-package'', [''1.0.0''])])"
proof -
  let ?l = "''bad-package'' @ tab # ''1.0.0'' @ tab # ''offline''"
  have h: "tab \<in> set ?l" "\<not> includes_str ?l ''| Package''" "\<not> includes_str ?l ''|---''"
    "\<not> (True \<and> startsWith ?l ''|'')"
    by (simp_all add: tab_def startsWith_def)
  have f: "trim ?l = ?l"
    by (simp add: trim_def is_space_def tab_def)
  have f1: "trim (tab_field1 ?l) = ''bad-package''"
    unfolding tab_field1_def f by (simp add: trim_def is_space_def tab_def)
  have f2: "trim (tab_field2 ?l) = ''1.0.0''"
    unfolding tab_field2_def f by (simp add: trim_def is_space_def tab_def)
  have a: "addPackage [] ''bad-package'' ''1.0.0'' = [(''bad-package'', [''1.0.0''])]"
    by (simp add: addPackage_def db_has_def)
  from tab_line_fallback[OF h, of "[]"] h(1)
  have "load_line (True, []) ?l = (True, [(''bad-package'', [''1.0.0''])])"
    unfolding f f1 f2 a by simp
  with h show ?thesis
    by (intro conjI)
qed

text \<open>
  C5 as stated fails in table mode for a line that starts with \<open>|\<close>: it is split at
  \<open>|\<close>, not at the tab, so the tab stays inside the name.
\<close>

theorem table_row_with_tab_counterexample:
  "tab \<in> set (''|a'' @ tab # ''b|c|'')
   \<and> loadInfectedPackages (Inr (''|---|'' @ newline # ''|a'' @ tab # ''b|c|''))
       = Inr [(''a'' @ tab # ''b'', [''c''])]
   \<and> map trim (split (trim (''|a'' @ tab # ''b|c|'')) [tab]) = [''|a'', ''b|c|'']
   \<and> (''a'' @ tab # ''b'', [''c'']) \<noteq> (''|a'', [''b|c|''])"
proof -
  have "loadInfectedPackages (Inr (''|---|'' @ newline # ''|a'' @ tab # ''b|c|''))
       = Inr [(''a'' @ tab # ''b'', [''c''])]"
    by code_simp
  moreover have "map trim (split (trim (''|a'' @ tab # ''b|c|'')) [tab]) = [''|a'', ''b|c|'']"
    by code_simp
  ultimately show ?thesis
    by (simp add: tab_def)
qed

end
